theory Spec2Isabelle
  imports Main "HOL-Library.Word" "HOL-Library.Multiset"
begin

unbundle bit_operations_syntax

section \<open>The concat demuxer (libavformat/concatdec.c)\<close>

text \<open>
  A shallow embedding of the concat demuxer: the segment table, \<open>open_file\<close>,
  \<open>open_next_file\<close>, the backfill pass of \<open>concat_read_header\<close>,
  \<open>concat_read_packet\<close>, \<open>try_seek\<close>, \<open>real_seek\<close> and \<open>concat_seek\<close>.

  Timestamps are \<open>int64_t\<close>: 64-bit words, compared as signed values (\<open><s\<close>,
  \<open>\<le>s\<close>), with wrapping addition and subtraction. Return codes are C \<open>int\<close>s on which
  the demuxer does no arithmetic; they are modelled as \<open>int\<close>. Indices into the
  segment table are \<open>nat\<close>: the source keeps them in \<open>unsigned\<close> and in non-negative
  \<open>int\<close> variables, and the table is assumed to hold fewer than \<open>2^30\<close> entries, so
  that \<open>left + right\<close> in the binary search does not overflow.

  A function of the demuxer that dereferences a pointer returns an \<open>option\<close>: \<open>None\<close>
  is the fault of the C program on a \<open>NULL\<close> pointer or on an index outside the table.
  The properties show that no fault occurs from the states the demuxer reaches.
\<close>

subsection \<open>Constants of the libraries\<close>

type_synonym int64 = "64 word"

definition AV_NOPTS_VALUE :: int64 where
  "AV_NOPTS_VALUE = 0x8000000000000000"

definition INT64_MIN :: int64 where
  "INT64_MIN = 0x8000000000000000"

definition INT64_MAX :: int64 where
  "INT64_MAX = 0x7FFFFFFFFFFFFFFF"

text \<open>\<open>AVERROR(e)\<close> negates a POSIX error number; the numbers are those of Linux.\<close>

definition AVERROR :: "int \<Rightarrow> int" where
  "AVERROR e = - e"

definition EIO :: int where "EIO = 5"

definition ENOMEM :: int where "ENOMEM = 12"

definition EINVAL :: int where "EINVAL = 22"

definition ESPIPE :: int where "ESPIPE = 29"

definition ENOSYS :: int where "ENOSYS = 38"

text \<open>\<open>AVERROR_EOF\<close> is \<open>FFERRTAG('E','O','F',' ')\<close>, the negated little-endian tag.\<close>

definition AVERROR_EOF :: int where
  "AVERROR_EOF = - (0x45 + 0x4F * 2 ^ 8 + 0x46 * 2 ^ 16 + 0x20 * 2 ^ 24)"

definition AVSEEK_FLAG_BYTE :: int where "AVSEEK_FLAG_BYTE = 2"

definition AVSEEK_FLAG_FRAME :: int where "AVSEEK_FLAG_FRAME = 8"

definition AV_ROUND_DOWN :: int where "AV_ROUND_DOWN = 2"

definition AV_ROUND_UP :: int where "AV_ROUND_UP = 3"

definition AV_ROUND_PASS_MINMAX :: int where "AV_ROUND_PASS_MINMAX = 8192"

type_synonym AVRational = "int \<times> int"

definition AV_TIME_BASE_Q :: AVRational where
  "AV_TIME_BASE_Q = (1, 1000000)"

definition CONCAT_MAX_OPEN_TRY :: nat where
  "CONCAT_MAX_OPEN_TRY = 3"

subsection \<open>Data\<close>

record ConcatFile =
  url :: string
  start_time :: int64
  duration :: int64

text \<open>A reader is an \<open>AVFormatContext *\<close> that the demuxer got from the library.\<close>

type_synonym reader = nat

record AVPacket =
  pts :: int64
  dts :: int64
  stream_index :: int
  payload :: nat

text \<open>
  Every call into the library is recorded, newest first, in the history of the state.
  \<open>OpenFile\<close> and \<open>OpenNextFile\<close> are not library calls: \<open>OpenFile\<close> marks a return
  of \<open>open_file\<close> with the index it was called for and the code it returned, and
  \<open>OpenNextFile\<close> marks a return of \<open>open_next_file\<close> with the code it returned.
\<close>

datatype event =
    AllocContext "reader option"
  | ResolveSegment nat int "string option"
  | OpenInput reader string int
  | FindStreamInfo reader int
  | CloseInput reader
  | ReadFrame reader int AVPacket
  | SeekFile reader int int64 int64 int64 int int
  | OpenFile nat int
  | OpenNextFile int

text \<open>
  The library and the network behind it are not part of the demuxer. What they answer is
  a parameter of the model: each answer may depend on everything that happened before
  (the history), so that an environment is any deterministic behaviour of the library.
  \<open>control_message_cb\<close> is \<open>None\<close> when the application set no callback; the callback
  answers \<open>IJKAVF_CM_RESOLVE_SEGMENT\<close> with its return code and \<open>fsc.url\<close>.
\<close>

record Env =
  control_message_cb :: "(event list \<Rightarrow> nat \<Rightarrow> int \<times> string option) option"
  avformat_alloc_context :: "event list \<Rightarrow> reader option"
  avformat_open_input :: "event list \<Rightarrow> reader \<Rightarrow> string \<Rightarrow> int \<Rightarrow> int"
  avformat_find_stream_info :: "event list \<Rightarrow> reader \<Rightarrow> int"
  av_read_frame :: "event list \<Rightarrow> reader \<Rightarrow> AVPacket \<Rightarrow> int \<times> AVPacket"
  avformat_seek_file :: "event list \<Rightarrow> reader \<Rightarrow> int \<Rightarrow> int64 \<Rightarrow> int64 \<Rightarrow> int64 \<Rightarrow> int \<Rightarrow> int"
  reader_start_time :: "event list \<Rightarrow> reader \<Rightarrow> int64"
  reader_duration :: "event list \<Rightarrow> reader \<Rightarrow> int64"
  reader_nb_streams :: "event list \<Rightarrow> reader \<Rightarrow> nat"
  reader_time_base :: "event list \<Rightarrow> reader \<Rightarrow> int \<Rightarrow> AVRational"
  av_rescale_q :: "int64 \<Rightarrow> AVRational \<Rightarrow> AVRational \<Rightarrow> int64"
  av_rescale_q_rnd :: "int64 \<Rightarrow> AVRational \<Rightarrow> AVRational \<Rightarrow> int \<Rightarrow> int64"

text \<open>
  The state: \<open>ConcatContext\<close> (\<open>nb_files\<close> is the length of \<open>files\<close>, \<open>cur_file\<close> is
  the index the pointer points to, \<open>None\<close> for \<open>NULL\<close>), the fields of the outer
  \<open>AVFormatContext\<close> that the demuxer reads or writes (\<open>avf->duration\<close>, the time bases
  of \<open>avf->streams\<close>, \<open>avf->pb->error\<close> with \<open>None\<close> when \<open>avf->pb\<close> is \<open>NULL\<close>), and
  the history.
\<close>

record State =
  files :: "ConcatFile list"
  cur_file :: "nat option"
  cat_avf :: "reader option"
  safe :: int
  seekable :: int
  error :: int
  rw_timeout :: int
  avf_duration :: int64
  avf_streams :: "AVRational list"
  pb_error :: "int option"
  hist :: "event list"

definition emit :: "event \<Rightarrow> State \<Rightarrow> State" where
  "emit e s = s\<lparr>hist := e # hist s\<rparr>"

lemma hist_emit [simp]: "hist (emit e s) = e # hist s"
  by (simp add: emit_def)

lemma emit_fields [simp]:
  "files (emit e s) = files s" "cur_file (emit e s) = cur_file s"
  "cat_avf (emit e s) = cat_avf s" "safe (emit e s) = safe s"
  "seekable (emit e s) = seekable s" "error (emit e s) = error s"
  "rw_timeout (emit e s) = rw_timeout s" "avf_duration (emit e s) = avf_duration s"
  "avf_streams (emit e s) = avf_streams s" "pb_error (emit e s) = pb_error s"
  by (simp_all add: emit_def)

subsection \<open>Readers that are open\<close>

text \<open>
  A reader is open from the \<open>avformat_open_input\<close> that succeeded on it to its
  \<open>avformat_close_input\<close>. \<open>live h\<close> is the multiset of the readers open after the
  history \<open>h\<close>.
\<close>

fun live_step :: "event \<Rightarrow> reader multiset \<Rightarrow> reader multiset" where
  "live_step (OpenInput r u ret) M = (if ret < 0 then M else add_mset r M)"
| "live_step (CloseInput r) M = M - {#r#}"
| "live_step e M = M"

primrec live :: "event list \<Rightarrow> reader multiset" where
  "live [] = {#}"
| "live (e # h) = live_step e (live h)"

text \<open>The returns of \<open>open_file\<close> in a history, newest first: index and code.\<close>

fun attempts :: "event list \<Rightarrow> (nat \<times> int) list" where
  "attempts [] = []"
| "attempts (OpenFile i ret # h) = (i, ret) # attempts h"
| "attempts (e # h) = attempts h"

text \<open>The returns of \<open>open_next_file\<close> in a history, newest first.\<close>

fun advances :: "event list \<Rightarrow> int list" where
  "advances [] = []"
| "advances (OpenNextFile ret # h) = ret # advances h"
| "advances (e # h) = advances h"

subsection \<open>The segment lifecycle: \<open>open_file\<close>\<close>

text \<open>
  \<open>avformat_close_input(&p)\<close> closes the reader \<open>p\<close> points to and does nothing
  when it is \<open>NULL\<close>.
\<close>

definition avformat_close_input :: "reader option \<Rightarrow> State \<Rightarrow> State" where
  "avformat_close_input p s = (case p of None \<Rightarrow> s | Some r \<Rightarrow> emit (CloseInput r) s)"

text \<open>
  The callback of \<open>open_file\<close>: when the application set one, it is asked for segment
  \<open>fileno\<close>, and its \<open>fsc.url\<close> replaces the url of the table when it returns 0 with
  a url. The replacement is used for this open only.
\<close>

definition resolve_segment :: "Env \<Rightarrow> nat \<Rightarrow> string \<Rightarrow> State \<Rightarrow> string \<times> State" where
  "resolve_segment env fileno file_url s =
     (case control_message_cb env of
        None \<Rightarrow> (file_url, s)
      | Some cb \<Rightarrow>
          (case cb (hist s) fileno of
             (cb_ret, fsc_url) \<Rightarrow>
               (if cb_ret = 0 then (case fsc_url of Some u \<Rightarrow> u | None \<Rightarrow> file_url) else file_url,
                emit (ResolveSegment fileno cb_ret fsc_url) s)))"

text \<open>
  The last statement of \<open>open_file\<close>, on the table:
  \<^verbatim>\<open>if (file->start_time == AV_NOPTS_VALUE)
      file->start_time = !fileno ? 0 : cat->files[fileno - 1].start_time +
                                       cat->files[fileno - 1].duration;\<close>
\<close>

definition backfill_start :: "nat \<Rightarrow> ConcatFile list \<Rightarrow> ConcatFile list" where
  "backfill_start fileno fs =
     (if start_time (fs ! fileno) = AV_NOPTS_VALUE
      then fs[fileno := (fs ! fileno)\<lparr>start_time :=
             (if fileno = 0 then 0
              else start_time (fs ! (fileno - 1)) + duration (fs ! (fileno - 1)))\<rparr>]
      else fs)"

text \<open>
  \<open>open_file(avf, fileno)\<close>. \<open>None\<close> is a fault of the C program: \<open>fileno\<close> is no
  index of the table, and \<open>&cat->files[fileno]\<close>, formed first, points outside it. A failing \<open>avformat_open_input\<close> frees the context it was given
  and sets the pointer to \<open>NULL\<close>, so the \<open>avformat_close_input(&new_avf)\<close> of the
  failure branch closes a reader only when \<open>avformat_find_stream_info\<close> failed.
  The dictionary of options carries \<open>rw_timeout\<close> to the open. After a successful
  \<open>avformat_open_input\<close> the pointer is not \<open>NULL\<close>, so \<open>if (new_avf)\<close> holds where
  it is tested. The call of \<open>av_log\<close> and the release of the dictionary and of the url
  of the callback are left out.
\<close>

definition open_file :: "Env \<Rightarrow> nat \<Rightarrow> State \<Rightarrow> (int \<times> State) option" where
  "open_file env fileno s =
     (if length (files s) \<le> fileno then None
      else
        (case avformat_alloc_context env (hist s) of
           None \<Rightarrow>
             Some (AVERROR ENOMEM,
                   emit (OpenFile fileno (AVERROR ENOMEM)) (emit (AllocContext None) s))
         | Some new_avf \<Rightarrow>
             (case resolve_segment env fileno (url (files s ! fileno))
                     (emit (AllocContext (Some new_avf)) s) of
                (u, s1) \<Rightarrow>
                  let ret = avformat_open_input env (hist s1) new_avf u (rw_timeout s1);
                      s2 = emit (OpenInput new_avf u ret) s1
                  in if ret < 0 then Some (ret, emit (OpenFile fileno ret) s2)
                     else
                       let ret = avformat_find_stream_info env (hist s2) new_avf;
                           s3 = emit (FindStreamInfo new_avf ret) s2
                       in if ret < 0
                          then Some (ret, emit (OpenFile fileno ret)
                                            (avformat_close_input (Some new_avf) s3))
                          else
                            let s4 = avformat_close_input (cat_avf s3) s3;
                                s5 = s4\<lparr>cat_avf := Some new_avf, cur_file := Some fileno,
                                        files := backfill_start fileno (files s4)\<rparr>
                            in Some (0, emit (OpenFile fileno 0) s5))))"

subsection \<open>The segment lifecycle: \<open>open_next_file\<close>\<close>

text \<open>
  The first statement of \<open>open_next_file\<close>:
  \<^verbatim>\<open>if (cat->cur_file->duration == AV_NOPTS_VALUE)
      cat->cur_file->duration = cat->avf->duration;\<close>
  It faults when \<open>cat->avf\<close> is \<open>NULL\<close> and the duration has to be read.
\<close>

definition fill_duration :: "Env \<Rightarrow> nat \<Rightarrow> State \<Rightarrow> State option" where
  "fill_duration env cur s =
     (if duration (files s ! cur) = AV_NOPTS_VALUE
      then (case cat_avf s of
              None \<Rightarrow> None
            | Some rd \<Rightarrow>
                Some (s\<lparr>files := (files s)[cur := (files s ! cur)
                        \<lparr>duration := reader_duration env (hist s) rd\<rparr>]\<rparr>))
      else Some s)"

text \<open>
  \<open>open_next_file(avf)\<close>. It faults when \<open>cat->cur_file\<close> does not point into the
  table. At the end of the table it returns \<open>AVERROR_EOF\<close> and calls nothing; otherwise
  it returns what \<open>open_file\<close> returns for the next index.
\<close>

definition open_next_file :: "Env \<Rightarrow> State \<Rightarrow> (int \<times> State) option" where
  "open_next_file env s =
     (case cur_file s of
        None \<Rightarrow> None
      | Some cur \<Rightarrow>
          if length (files s) \<le> cur then None
          else
            (case fill_duration env cur s of
               None \<Rightarrow> None
             | Some s1 \<Rightarrow>
                 if length (files s1) \<le> cur + 1
                 then Some (AVERROR_EOF, emit (OpenNextFile AVERROR_EOF) s1)
                 else
                   (case open_file env (cur + 1) s1 of
                      None \<Rightarrow> None
                    | Some (ret, s2) \<Rightarrow> Some (ret, emit (OpenNextFile ret) s2))))"

subsection \<open>The packet pump: one pass of the loop\<close>

text \<open>
  One pass through the body of \<open>while (1)\<close> in \<open>concat_read_packet\<close>, with the
  value of \<open>try_counter\<close>: it leaves the loop by \<open>break\<close> or by \<open>goto fail\<close>, or
  goes round again. It faults when \<open>cat->avf\<close> is \<open>NULL\<close>. On \<open>goto fail\<close> the
  code of the failed \<open>open_next_file\<close> is stored (\<open>store_error\<close>) by
  \<^verbatim>\<open>cat->error = ret; if (avf->pb && ret != AVERROR_EOF) avf->pb->error = ret;\<close>
  and \<open>ret\<close> becomes \<open>AVERROR_EOF\<close>. The calls of \<open>av_log\<close> are left out.
\<close>

datatype loop_exit =
    Break (exit_ret: int) (exit_pkt: AVPacket) (exit_state: State)
  | GotoFail (exit_ret: int) (exit_pkt: AVPacket) (exit_state: State)

datatype flow = Exit loop_exit | Continue nat AVPacket State

definition store_error :: "int \<Rightarrow> State \<Rightarrow> State" where
  "store_error ret s =
     (let s1 = s\<lparr>error := ret\<rparr>
      in if pb_error s1 \<noteq> None \<and> ret \<noteq> AVERROR_EOF then s1\<lparr>pb_error := Some ret\<rparr> else s1)"

definition read_iter :: "Env \<Rightarrow> nat \<Rightarrow> AVPacket \<Rightarrow> State \<Rightarrow> flow option" where
  "read_iter env try_counter pkt s =
     (case cat_avf s of
        None \<Rightarrow> None
      | Some rd \<Rightarrow>
          (case av_read_frame env (hist s) rd pkt of
             (ret, pkt1) \<Rightarrow>
               let s1 = emit (ReadFrame rd ret pkt1) s in
               if ret \<noteq> AVERROR_EOF then Some (Exit (Break ret pkt1 s1))
               else
                 (case open_next_file env s1 of
                    None \<Rightarrow> None
                  | Some (ret, s2) \<Rightarrow>
                      if ret < 0 then
                        let try_counter = try_counter + 1 in
                        if try_counter > CONCAT_MAX_OPEN_TRY then
                          Some (Exit (GotoFail AVERROR_EOF pkt1 (store_error ret s2)))
                        else Some (Continue try_counter pkt1 s2)
                      else Some (Continue try_counter pkt1 s2))))"

subsection \<open>The packet pump: the loop ends\<close>

text \<open>
  The loop of \<open>concat_read_packet\<close> goes round again only after \<open>open_next_file\<close>
  has returned: after a failure with a larger \<open>try_counter\<close>, which is at most
  \<open>CONCAT_MAX_OPEN_TRY\<close> then, and after a success with a larger active index, which is
  below the length of the table. The lemmas of this subsection say what \<open>open_file\<close> and
  \<open>open_next_file\<close> leave as it was; the loop is defined after them, with its
  termination.
\<close>

lemma length_backfill_start [simp]: "length (backfill_start i fs) = length fs"
  by (simp add: backfill_start_def)

text \<open>The fields that no operation on segments writes.\<close>

definition same_outer :: "State \<Rightarrow> State \<Rightarrow> bool" where
  "same_outer s s' =
     (safe s' = safe s \<and> seekable s' = seekable s \<and> error s' = error s \<and>
      rw_timeout s' = rw_timeout s \<and> avf_duration s' = avf_duration s \<and>
      avf_streams s' = avf_streams s \<and> pb_error s' = pb_error s)"

lemma same_outer_refl [simp]: "same_outer s s"
  by (simp add: same_outer_def)

lemma same_outer_trans: "same_outer s s1 \<Longrightarrow> same_outer s1 s2 \<Longrightarrow> same_outer s s2"
  by (simp add: same_outer_def)

lemma same_outer_emit [simp]:
  "same_outer s (emit e s') = same_outer s s'" "same_outer (emit e s) s' = same_outer s s'"
  by (simp_all add: same_outer_def)

lemma resolve_segment_state:
  "resolve_segment env i u s = (u', s1) \<Longrightarrow>
     files s1 = files s \<and> cur_file s1 = cur_file s \<and> cat_avf s1 = cat_avf s \<and>
     same_outer s s1 \<and> live (hist s1) = live (hist s) \<and>
     attempts (hist s1) = attempts (hist s) \<and> advances (hist s1) = advances (hist s)"
  by (auto simp: resolve_segment_def split: option.splits prod.splits)

lemma open_file_fail:
  "open_file env i s = Some (ret, s') \<Longrightarrow> ret < 0 \<Longrightarrow>
     files s' = files s \<and> cur_file s' = cur_file s \<and> cat_avf s' = cat_avf s \<and>
     same_outer s s' \<and> live (hist s') = live (hist s) \<and>
     attempts (hist s') = (i, ret) # attempts (hist s) \<and>
     advances (hist s') = advances (hist s)"
  apply (simp add: open_file_def Let_def split: if_splits option.splits prod.splits)
   apply (auto simp: AVERROR_def ENOMEM_def avformat_close_input_def
               dest!: resolve_segment_state)
  done

lemma open_file_ok:
  "open_file env i s = Some (ret, s') \<Longrightarrow> \<not> ret < 0 \<Longrightarrow>
     ret = 0 \<and> files s' = backfill_start i (files s) \<and> cur_file s' = Some i \<and>
     same_outer s s' \<and>
     (\<exists>new. cat_avf s' = Some new \<and>
            live (hist s') =
              add_mset new (live (hist s)) -
              (case cat_avf s of None \<Rightarrow> {#} | Some old \<Rightarrow> {#old#})) \<and>
     attempts (hist s') = (i, 0) # attempts (hist s) \<and>
     advances (hist s') = advances (hist s)"
  apply (simp add: open_file_def Let_def split: if_splits option.splits prod.splits)
   apply (auto simp: AVERROR_def ENOMEM_def avformat_close_input_def same_outer_def
               dest!: resolve_segment_state split: option.splits)
  done

lemma open_file_index:
  "open_file env i s = Some (ret, s') \<Longrightarrow> i < length (files s)"
  by (simp add: open_file_def split: if_splits)

lemma open_file_total:
  "i < length (files s) \<Longrightarrow> \<exists>ret s'. open_file env i s = Some (ret, s')"
  by (simp add: open_file_def Let_def split: option.splits prod.splits)

lemma AVERROR_EOF_neg [simp]: "AVERROR_EOF < 0"
  by (simp add: AVERROR_EOF_def)

lemma fill_duration_state:
  "fill_duration env cur s = Some s1 \<Longrightarrow>
     length (files s1) = length (files s) \<and> hist s1 = hist s \<and>
     cur_file s1 = cur_file s \<and> cat_avf s1 = cat_avf s \<and> same_outer s s1"
  by (auto simp: fill_duration_def same_outer_def split: if_splits option.splits)

lemma open_next_file_fail:
  assumes "open_next_file env s = Some (ret, s')" and "ret < 0"
  shows "length (files s') = length (files s) \<and> cur_file s' = cur_file s \<and>
     cat_avf s' = cat_avf s \<and> same_outer s s' \<and>
     live (hist s') = live (hist s) \<and>
     advances (hist s') = ret # advances (hist s) \<and>
     (\<exists>cur. cur_file s = Some cur \<and> cur < length (files s) \<and>
        (if cur + 1 < length (files s)
         then attempts (hist s') = (cur + 1, ret) # attempts (hist s)
         else ret = AVERROR_EOF \<and> hist s' = OpenNextFile AVERROR_EOF # hist s))"
proof -
  from assms obtain cur s1 where cur: "cur_file s = Some cur" "cur < length (files s)"
    and s1: "fill_duration env cur s = Some s1"
    and rest: "(if length (files s1) \<le> cur + 1
                then Some (AVERROR_EOF, emit (OpenNextFile AVERROR_EOF) s1)
                else (case open_file env (cur + 1) s1 of
                        None \<Rightarrow> None
                      | Some (ret, s2) \<Rightarrow> Some (ret, emit (OpenNextFile ret) s2))) = Some (ret, s')"
    by (auto simp: open_next_file_def split: option.splits if_splits)
  note f = fill_duration_state [OF s1]
  show ?thesis
  proof (cases "length (files s1) \<le> cur + 1")
    case True
    with rest have "ret = AVERROR_EOF" "s' = emit (OpenNextFile AVERROR_EOF) s1" by auto
    with f cur True show ?thesis by auto
  next
    case False
    with rest obtain s2 where o: "open_file env (cur + 1) s1 = Some (ret, s2)"
      and s': "s' = emit (OpenNextFile ret) s2"
      by (auto split: option.splits)
    from open_file_fail [OF o assms(2)] f cur False s' show ?thesis
      by (auto intro: same_outer_trans)
  qed
qed

lemma open_next_file_ok:
  assumes "open_next_file env s = Some (ret, s')" and "\<not> ret < 0"
  shows "ret = 0 \<and> length (files s') = length (files s) \<and> same_outer s s' \<and>
     advances (hist s') = 0 # advances (hist s) \<and>
     (\<exists>cur new. cur_file s = Some cur \<and> cur + 1 < length (files s) \<and>
        cur_file s' = Some (cur + 1) \<and> cat_avf s' = Some new \<and>
        live (hist s') =
          add_mset new (live (hist s)) -
          (case cat_avf s of None \<Rightarrow> {#} | Some old \<Rightarrow> {#old#}) \<and>
        attempts (hist s') = (cur + 1, 0) # attempts (hist s))"
proof -
  from assms obtain cur s1 where cur: "cur_file s = Some cur" "cur < length (files s)"
    and s1: "fill_duration env cur s = Some s1"
    and rest: "(if length (files s1) \<le> cur + 1
                then Some (AVERROR_EOF, emit (OpenNextFile AVERROR_EOF) s1)
                else (case open_file env (cur + 1) s1 of
                        None \<Rightarrow> None
                      | Some (ret, s2) \<Rightarrow> Some (ret, emit (OpenNextFile ret) s2))) = Some (ret, s')"
    by (auto simp: open_next_file_def split: option.splits if_splits)
  note f = fill_duration_state [OF s1]
  show ?thesis
  proof (cases "length (files s1) \<le> cur + 1")
    case True
    with rest assms(2) show ?thesis by auto
  next
    case False
    with rest obtain s2 where o: "open_file env (cur + 1) s1 = Some (ret, s2)"
      and s': "s' = emit (OpenNextFile ret) s2"
      by (auto split: option.splits)
    from open_file_ok [OF o assms(2)] f cur False s' show ?thesis
      by (auto intro: same_outer_trans)
  qed
qed

lemma open_next_file_total:
  assumes "cur_file s = Some cur" and "cur < length (files s)" and "cat_avf s \<noteq> None"
  shows "\<exists>ret s'. open_next_file env s = Some (ret, s')"
proof -
  from assms(3) have "\<exists>s1. fill_duration env cur s = Some s1"
    by (auto simp: fill_duration_def)
  then obtain s1 where s1: "fill_duration env cur s = Some s1" ..
  note f = fill_duration_state [OF s1]
  show ?thesis
  proof (cases "length (files s1) \<le> cur + 1")
    case True
    with assms s1 show ?thesis by (simp add: open_next_file_def)
  next
    case False
    then have "cur + 1 < length (files s1)" by simp
    from open_file_total [OF this] obtain ret s2 where
      "open_file env (cur + 1) s1 = Some (ret, s2)" by blast
    with assms s1 False show ?thesis by (simp add: open_next_file_def)
  qed
qed

lemma read_iter_Continue:
  assumes "read_iter env try_counter pkt s = Some (Continue try_counter' pkt' s')"
  shows "length (files s') = length (files s) \<and> same_outer s s' \<and>
     (\<exists>cur. cur_file s = Some cur \<and> cur < length (files s) \<and>
        (try_counter' = try_counter + 1 \<and> try_counter' \<le> CONCAT_MAX_OPEN_TRY \<and>
         cur_file s' = Some cur \<and> cat_avf s' = cat_avf s
         \<or> try_counter' = try_counter \<and> cur_file s' = Some (cur + 1) \<and>
           cur + 1 < length (files s) \<and> cat_avf s' \<noteq> None))"
proof -
  from assms obtain rd p1 r2 where rd: "cat_avf s = Some rd"
    and onf: "open_next_file env (emit (ReadFrame rd AVERROR_EOF p1) s) = Some (r2, s')"
    and tc: "if r2 < 0 then try_counter' = try_counter + 1 \<and> try_counter' \<le> CONCAT_MAX_OPEN_TRY
             else try_counter' = try_counter"
    by (auto simp: read_iter_def Let_def split: option.splits prod.splits if_splits)
  show ?thesis
  proof (cases "r2 < 0")
    case True
    from open_next_file_fail [OF onf True] tc True rd show ?thesis by auto
  next
    case False
    from open_next_file_ok [OF onf False] tc False rd show ?thesis by auto
  qed
qed

function read_loop :: "Env \<Rightarrow> nat \<Rightarrow> AVPacket \<Rightarrow> State \<Rightarrow> loop_exit option" where
  "read_loop env try_counter pkt s =
     (case read_iter env try_counter pkt s of
        None \<Rightarrow> None
      | Some (Exit e) \<Rightarrow> Some e
      | Some (Continue try_counter' pkt' s') \<Rightarrow> read_loop env try_counter' pkt' s')"
  by pat_completeness auto
termination
proof (relation "measure (\<lambda>(env, try_counter, pkt, s).
         (length (files s) - (case cur_file s of None \<Rightarrow> 0 | Some cur \<Rightarrow> cur)) +
         (CONCAT_MAX_OPEN_TRY + 1 - try_counter))")
  show "wf (measure (\<lambda>(env, try_counter, pkt, s).
         (length (files s) - (case cur_file s of None \<Rightarrow> 0 | Some cur \<Rightarrow> cur)) +
         (CONCAT_MAX_OPEN_TRY + 1 - try_counter)))"
    by simp
next
  fix env try_counter pkt s x2 try_counter' pkt' s'
  assume "read_iter env try_counter pkt s = Some x2" and "x2 = Continue try_counter' pkt' s'"
  then have "read_iter env try_counter pkt s = Some (Continue try_counter' pkt' s')" by simp
  from read_iter_Continue [OF this]
  show "((env, try_counter', pkt', s'), (env, try_counter, pkt, s))
        \<in> measure (\<lambda>(env, try_counter, pkt, s).
         (length (files s) - (case cur_file s of None \<Rightarrow> 0 | Some cur \<Rightarrow> cur)) +
         (CONCAT_MAX_OPEN_TRY + 1 - try_counter))"
    by auto
qed

declare read_loop.simps [simp del]

subsection \<open>The packet pump: \<open>concat_read_packet\<close>\<close>

text \<open>
  \<open>concat_read_packet(avf, pkt)\<close>: the return code, the packet as the call leaves it,
  and the state. After a \<open>break\<close> with a packet, its timestamps are shifted; the faults
  there are a \<open>cur_file\<close> or \<open>cat->avf\<close> that cannot be dereferenced.
\<close>

definition concat_read_packet ::
  "Env \<Rightarrow> AVPacket \<Rightarrow> State \<Rightarrow> (int \<times> AVPacket \<times> State) option" where
  "concat_read_packet env pkt s =
     (if error s \<noteq> 0 then Some (error s, pkt, s)
      else
        (case read_loop env 0 pkt s of
           None \<Rightarrow> None
         | Some (GotoFail ret pkt1 s1) \<Rightarrow> Some (ret, pkt1, s1)
         | Some (Break ret pkt1 s1) \<Rightarrow>
             if ret < 0 then Some (ret, pkt1, s1)
             else
               (case cur_file s1 of
                  None \<Rightarrow> None
                | Some cur \<Rightarrow>
                    (case cat_avf s1 of
                       None \<Rightarrow> None
                     | Some rd \<Rightarrow>
                         if length (files s1) \<le> cur then None
                         else
                           let delta = av_rescale_q env
                                 (start_time (files s1 ! cur) - reader_start_time env (hist s1) rd)
                                 AV_TIME_BASE_Q
                                 (reader_time_base env (hist s1) rd (stream_index pkt1));
                               pkt2 = (if pts pkt1 \<noteq> AV_NOPTS_VALUE
                                       then pkt1\<lparr>pts := pts pkt1 + delta\<rparr> else pkt1);
                               pkt3 = (if dts pkt2 \<noteq> AV_NOPTS_VALUE
                                       then pkt2\<lparr>dts := dts pkt2 + delta\<rparr> else pkt2)
                           in Some (ret, pkt3, s1)))))"

subsection \<open>The seek engine: locating a segment\<close>

text \<open>
  The loop of \<open>real_seek\<close>:
  \<^verbatim>\<open>while (right - left > 1) { int mid = (left + right) / 2;
     if (ts < cat->files[mid].start_time) right = mid; else left = mid; }\<close>
\<close>

function bsearch :: "ConcatFile list \<Rightarrow> int64 \<Rightarrow> nat \<Rightarrow> nat \<Rightarrow> nat" where
  "bsearch fs ts left right =
     (if right - left > 1 then
        let mid = (left + right) div 2 in
        if ts <s start_time (fs ! mid) then bsearch fs ts left mid
        else bsearch fs ts mid right
      else left)"
  by pat_completeness auto
termination
  by (relation "measure (\<lambda>(fs, ts, left, right). right - left)") auto

declare bsearch.simps [simp del]

definition locate :: "ConcatFile list \<Rightarrow> int64 \<Rightarrow> nat" where
  "locate fs ts = bsearch fs ts 0 (length fs)"

subsection \<open>The seek engine: seeking\<close>

text \<open>\<open>rescale_interval\<close>, on the triple \<open>(min_ts, ts, max_ts)\<close>.\<close>

definition rescale_interval ::
  "Env \<Rightarrow> AVRational \<Rightarrow> AVRational \<Rightarrow> int64 \<times> int64 \<times> int64 \<Rightarrow> int64 \<times> int64 \<times> int64" where
  "rescale_interval env tb_in tb_out w =
     (case w of
        (min_ts, ts, max_ts) \<Rightarrow>
          (av_rescale_q_rnd env min_ts tb_in tb_out (AV_ROUND_UP OR AV_ROUND_PASS_MINMAX),
           av_rescale_q env ts tb_in tb_out,
           av_rescale_q_rnd env max_ts tb_in tb_out (AV_ROUND_DOWN OR AV_ROUND_PASS_MINMAX)))"

text \<open>
  \<open>try_seek\<close>: the window is moved into the time of the open reader and, for a given
  stream, into its time base; then the reader seeks. The faults are a \<open>cur_file\<close> or
  \<open>cat->avf\<close> that cannot be dereferenced.
\<close>

definition try_seek ::
  "Env \<Rightarrow> int \<Rightarrow> int64 \<Rightarrow> int64 \<Rightarrow> int64 \<Rightarrow> int \<Rightarrow> State \<Rightarrow> (int \<times> State) option" where
  "try_seek env stream min_ts ts max_ts flags s =
     (case cur_file s of
        None \<Rightarrow> None
      | Some cur \<Rightarrow>
          (case cat_avf s of
             None \<Rightarrow> None
           | Some rd \<Rightarrow>
               if length (files s) \<le> cur then None
               else
                 let t0 = start_time (files s ! cur) - reader_start_time env (hist s) rd;
                     ts1 = ts - t0;
                     min_ts1 = (if min_ts = INT64_MIN then INT64_MIN else min_ts - t0);
                     max_ts1 = (if max_ts = INT64_MAX then INT64_MAX else max_ts - t0)
                 in if 0 \<le> stream \<and> int (reader_nb_streams env (hist s) rd) \<le> stream
                    then Some (AVERROR EIO, s)
                    else
                      (case (if 0 \<le> stream
                             then rescale_interval env AV_TIME_BASE_Q
                                    (reader_time_base env (hist s) rd stream)
                                    (min_ts1, ts1, max_ts1)
                             else (min_ts1, ts1, max_ts1)) of
                         (min_ts2, ts2, max_ts2) \<Rightarrow>
                           let ret = avformat_seek_file env (hist s) rd stream
                                       min_ts2 ts2 max_ts2 flags
                           in Some (ret, emit (SeekFile rd stream min_ts2 ts2 max_ts2 flags ret) s))))"

text \<open>
  The window of \<open>real_seek\<close> after its first statement: for a given stream it is
  rescaled from the time base of that stream of the virtual source to \<open>AV_TIME_BASE_Q\<close>.
\<close>

definition seek_window ::
  "Env \<Rightarrow> State \<Rightarrow> int \<Rightarrow> int64 \<times> int64 \<times> int64 \<Rightarrow> int64 \<times> int64 \<times> int64" where
  "seek_window env s stream w =
     (if 0 \<le> stream
      then rescale_interval env (avf_streams s ! nat stream) AV_TIME_BASE_Q w
      else w)"

text \<open>
  \<open>real_seek\<close>. In \<open>left < cat->nb_files - 1\<close> the table is not empty, since
  \<open>open_file(avf, left)\<close> has returned.
\<close>

definition real_seek ::
  "Env \<Rightarrow> int \<Rightarrow> int64 \<Rightarrow> int64 \<Rightarrow> int64 \<Rightarrow> int \<Rightarrow> State \<Rightarrow> (int \<times> State) option" where
  "real_seek env stream min_ts ts max_ts flags s =
     (if 0 \<le> stream \<and> int (length (avf_streams s)) \<le> stream then Some (AVERROR EINVAL, s)
      else
        (case seek_window env s stream (min_ts, ts, max_ts) of
           (min_ts, ts, max_ts) \<Rightarrow>
             let left = locate (files s) ts in
             (case open_file env left s of
                None \<Rightarrow> None
              | Some (ret, s1) \<Rightarrow>
                  if ret < 0 then Some (ret, s1)
                  else
                    (case try_seek env stream min_ts ts max_ts flags s1 of
                       None \<Rightarrow> None
                     | Some (ret, s2) \<Rightarrow>
                         if ret < 0 \<and> left < length (files s2) - 1 \<and>
                            start_time (files s2 ! (left + 1)) <s max_ts
                         then
                           (case open_file env (left + 1) s2 of
                              None \<Rightarrow> None
                            | Some (ret, s3) \<Rightarrow>
                                if ret < 0 then Some (ret, s3)
                                else try_seek env stream min_ts ts max_ts flags s3)
                         else Some (ret, s2)))))"

text \<open>\<open>concat_seek\<close>, the \<open>read_seek2\<close> of the demuxer.\<close>

definition concat_seek ::
  "Env \<Rightarrow> int \<Rightarrow> int64 \<Rightarrow> int64 \<Rightarrow> int64 \<Rightarrow> int \<Rightarrow> State \<Rightarrow> (int \<times> State) option" where
  "concat_seek env stream min_ts ts max_ts flags s =
     (let cur_file_saved = cur_file s;
          cur_avf_saved = cat_avf s;
          s0 = s\<lparr>error := 0\<rparr>
      in if seekable s0 = 0 then Some (AVERROR ESPIPE, s0)
         else if flags AND (AVSEEK_FLAG_BYTE OR AVSEEK_FLAG_FRAME) \<noteq> 0
         then Some (AVERROR ENOSYS, s0)
         else
           (case real_seek env stream min_ts ts max_ts flags (s0\<lparr>cat_avf := None\<rparr>) of
              None \<Rightarrow> None
            | Some (ret, s1) \<Rightarrow>
                if ret < 0
                then Some (ret, (avformat_close_input (cat_avf s1) s1)
                                  \<lparr>cat_avf := cur_avf_saved, cur_file := cur_file_saved\<rparr>)
                else Some (ret, avformat_close_input cur_avf_saved s1)))"

subsection \<open>The backfill pass of \<open>concat_read_header\<close>\<close>

text \<open>
  \<open>add_file\<close> appends a descriptor whose start time and duration are
  \<open>AV_NOPTS_VALUE\<close>; a \<open>duration\<close> directive of the script, or the resolver, then sets
  the duration of the descriptor added last. Nothing writes a start time before the
  backfill pass. A segment of the list is its url and its duration, \<open>AV_NOPTS_VALUE\<close>
  when none was given.
\<close>

definition new_file :: "string \<times> int64 \<Rightarrow> ConcatFile" where
  "new_file seg = \<lparr>url = fst seg, start_time = AV_NOPTS_VALUE, duration = snd seg\<rparr>"

text \<open>
  The loop of the pass, from index \<open>i\<close> with the running \<open>time\<close>; it returns the table,
  the index at which it stopped and the time:
  \<^verbatim>\<open>for (i = 0; i < cat->nb_files; i++) {
      if (cat->files[i].start_time == AV_NOPTS_VALUE) cat->files[i].start_time = time;
      else time = cat->files[i].start_time;
      if (cat->files[i].duration == AV_NOPTS_VALUE) break;
      time += cat->files[i].duration; }\<close>
\<close>

function backfill_loop :: "ConcatFile list \<Rightarrow> nat \<Rightarrow> int64 \<Rightarrow> ConcatFile list \<times> nat \<times> int64" where
  "backfill_loop fs i time =
     (if i < length fs then
        let fs1 = (if start_time (fs ! i) = AV_NOPTS_VALUE
                   then fs[i := (fs ! i)\<lparr>start_time := time\<rparr>] else fs);
            time1 = (if start_time (fs ! i) = AV_NOPTS_VALUE then time else start_time (fs ! i))
        in if duration (fs1 ! i) = AV_NOPTS_VALUE then (fs1, i, time1)
           else backfill_loop fs1 (i + 1) (time1 + duration (fs1 ! i))
      else (fs, i, time))"
  by pat_completeness auto
termination
  by (relation "measure (\<lambda>(fs, i, time). length fs - i)") auto

declare backfill_loop.simps [simp del]

text \<open>The pass, with \<open>if (i == cat->nb_files)\<close> after it.\<close>

definition header_backfill :: "State \<Rightarrow> State" where
  "header_backfill s =
     (case backfill_loop (files s) 0 0 of
        (fs, i, time) \<Rightarrow>
          if i = length fs then s\<lparr>files := fs, avf_duration := time, seekable := 1\<rparr>
          else s\<lparr>files := fs\<rparr>)"

section \<open>Notions for the properties\<close>

text \<open>
  A state is active when \<open>cat->cur_file\<close> points into the table and \<open>cat->avf\<close> is a
  reader: the state \<open>concat_read_header\<close> leaves behind, and every state after it.
\<close>

definition active :: "State \<Rightarrow> bool" where
  "active s = ((case cur_file s of None \<Rightarrow> False | Some cur \<Rightarrow> cur < length (files s)) \<and>
               cat_avf s \<noteq> None)"

text \<open>
  A list of returns of \<open>open_file\<close>, oldest first, is sequential from the index \<open>cur\<close>
  when each call is for the successor of the segment that is active when it is made:
  after a failure the same index again, after a success the next one.
\<close>

fun sequential :: "nat \<Rightarrow> (nat \<times> int) list \<Rightarrow> bool" where
  "sequential cur [] = True"
| "sequential cur ((i, ret) # as) = (i = cur + 1 \<and> sequential (if ret < 0 then cur else i) as)"

text \<open>The returns that are failures.\<close>

definition failed :: "(nat \<times> int) list \<Rightarrow> (nat \<times> int) list" where
  "failed as = filter (\<lambda>a. snd a < 0) as"

text \<open>Start times that never decrease, and start times that increase, as signed values.\<close>

definition starts_sorted :: "ConcatFile list \<Rightarrow> bool" where
  "starts_sorted fs = sorted_wrt (\<lambda>a b. start_time a \<le>s start_time b) fs"

definition starts_increasing :: "ConcatFile list \<Rightarrow> bool" where
  "starts_increasing fs = sorted_wrt (\<lambda>a b. start_time a <s start_time b) fs"

text \<open>
  The design's \<open>NotSupported\<close> stands for two codes of the source: \<open>AVERROR(ESPIPE)\<close>
  for a table that is not seekable and \<open>AVERROR(ENOSYS)\<close> for the byte and frame flags.
\<close>

definition NotSupported :: "int \<Rightarrow> bool" where
  "NotSupported ret = (ret = AVERROR ESPIPE \<or> ret = AVERROR ENOSYS)"

section \<open>An example\<close>

text \<open>
  A table of three segments with explicit durations, in microseconds, a state in which
  the first segment is open, and environments in which \<open>avformat_open_input\<close> returns
  a given code, every read is at the end of its segment and timestamps are rescaled
  with rounding down.
\<close>

definition example_table :: "ConcatFile list" where
  "example_table =
     [\<lparr>url = ''a'', start_time = 0, duration = 10000000\<rparr>,
      \<lparr>url = ''b'', start_time = 10000000, duration = 5000000\<rparr>,
      \<lparr>url = ''c'', start_time = 15000000, duration = 7000000\<rparr>]"

definition simple_rescale :: "int64 \<Rightarrow> AVRational \<Rightarrow> AVRational \<Rightarrow> int64" where
  "simple_rescale a bq cq = word_of_int ((sint a * fst bq * snd cq) div (snd bq * fst cq))"

definition example_env :: "int \<Rightarrow> Env" where
  "example_env open_ret =
     \<lparr>control_message_cb = None,
      avformat_alloc_context = (\<lambda>h. Some (length h)),
      avformat_open_input = (\<lambda>h r u t. open_ret),
      avformat_find_stream_info = (\<lambda>h r. 0),
      av_read_frame = (\<lambda>h r p. (AVERROR_EOF, p)),
      avformat_seek_file = (\<lambda>h r st mn ts mx fl. 0),
      reader_start_time = (\<lambda>h r. 0),
      reader_duration = (\<lambda>h r. 0),
      reader_nb_streams = (\<lambda>h r. 1),
      reader_time_base = (\<lambda>h r i. (1, 1000)),
      av_rescale_q = simple_rescale,
      av_rescale_q_rnd =
        (\<lambda>a bq cq rnd.
           if rnd AND AV_ROUND_PASS_MINMAX \<noteq> 0 \<and> (a = INT64_MIN \<or> a = INT64_MAX) then a
           else simple_rescale a bq cq)\<rparr>"

definition example_state :: State where
  "example_state =
     \<lparr>files = example_table, cur_file = Some 0, cat_avf = Some 0, safe = 1, seekable = 1,
      error = 0, rw_timeout = - 1, avf_duration = 22000000, avf_streams = [(1, 1000)],
      pb_error = Some 0,
      hist = [OpenFile 0 0, FindStreamInfo 0 0, OpenInput 0 ''a'' 0, AllocContext (Some 0)]\<rparr>"

definition example_packet :: AVPacket where
  "example_packet = \<lparr>pts = AV_NOPTS_VALUE, dts = AV_NOPTS_VALUE, stream_index = 0, payload = 0\<rparr>"

text \<open>
  The state after four failed opens of the second segment, an environment in which
  every read returns a packet with a presentation timestamp and no decode timestamp,
  and the state after a seek into the second segment.
\<close>

definition sticky_state :: State where
  "sticky_state = example_state
     \<lparr>error := - 5, pb_error := Some (- 5),
      hist := [OpenNextFile (- 5), OpenFile 1 (- 5), OpenInput 20 ''b'' (- 5),
               AllocContext (Some 20), ReadFrame 0 AVERROR_EOF example_packet,
               OpenNextFile (- 5), OpenFile 1 (- 5), OpenInput 15 ''b'' (- 5),
               AllocContext (Some 15), ReadFrame 0 AVERROR_EOF example_packet,
               OpenNextFile (- 5), OpenFile 1 (- 5), OpenInput 10 ''b'' (- 5),
               AllocContext (Some 10), ReadFrame 0 AVERROR_EOF example_packet,
               OpenNextFile (- 5), OpenFile 1 (- 5), OpenInput 5 ''b'' (- 5),
               AllocContext (Some 5), ReadFrame 0 AVERROR_EOF example_packet] @
              hist example_state\<rparr>"

definition reading_env :: Env where
  "reading_env = (example_env 0)
     \<lparr>av_read_frame := (\<lambda>h r p. (0, p\<lparr>pts := 40, dts := AV_NOPTS_VALUE, stream_index := 0\<rparr>))\<rparr>"

definition second_segment_state :: State where
  "second_segment_state = example_state
     \<lparr>cur_file := Some 1, cat_avf := Some 4,
      hist := [CloseInput 0, SeekFile 4 (- 1) (- 10000000) 2000000 INT64_MAX 0 0,
               OpenFile 1 0, FindStreamInfo 4 0, OpenInput 4 ''b'' 0,
               AllocContext (Some 4)] @ hist example_state\<rparr>"

text \<open>
  The state after a seek into the last segment, and the state after a read from there
  that found the end of the table four times.
\<close>

definition third_segment_state :: State where
  "third_segment_state = example_state
     \<lparr>cur_file := Some 2, cat_avf := Some 4,
      hist := [CloseInput 0, SeekFile 4 (- 1) (- 15000000) 1000000 INT64_MAX 0 0,
               OpenFile 2 0, FindStreamInfo 4 0, OpenInput 4 ''c'' 0,
               AllocContext (Some 4)] @ hist example_state\<rparr>"

definition table_end_state :: State where
  "table_end_state = third_segment_state
     \<lparr>error := AVERROR_EOF,
      hist := [OpenNextFile AVERROR_EOF, ReadFrame 4 AVERROR_EOF example_packet,
               OpenNextFile AVERROR_EOF, ReadFrame 4 AVERROR_EOF example_packet,
               OpenNextFile AVERROR_EOF, ReadFrame 4 AVERROR_EOF example_packet,
               OpenNextFile AVERROR_EOF, ReadFrame 4 AVERROR_EOF example_packet] @
              hist third_segment_state\<rparr>"



text \<open>An environment in which a reader rejects a seek to its very start.\<close>

definition edge_env :: Env where
  "edge_env = (example_env 0)
     \<lparr>avformat_seek_file := (\<lambda>h r st mn ts mx fl. if ts = 0 then - 1 else 0)\<rparr>"

text \<open>
  The state before the backfill pass, for a list of segments, and two lists: one with
  every duration explicit and one whose last duration is not given.
\<close>

definition parsed_state :: "(string \<times> int64) list \<Rightarrow> State" where
  "parsed_state segs =
     \<lparr>files = map new_file segs, cur_file = None, cat_avf = None, safe = 1, seekable = 0,
      error = 0, rw_timeout = - 1, avf_duration = AV_NOPTS_VALUE, avf_streams = [],
      pb_error = Some 0, hist = []\<rparr>"

definition example_segments :: "(string \<times> int64) list" where
  "example_segments = [(''a'', 10000000), (''b'', 5000000), (''c'', 7000000)]"

definition open_ended_segments :: "(string \<times> int64) list" where
  "open_ended_segments = [(''a'', 10000000), (''b'', 5000000), (''c'', AV_NOPTS_VALUE)]"

section \<open>Lemmas\<close>

subsection \<open>The packet pump\<close>

lemma read_iter_cases:
  assumes "read_iter env tc pkt s = Some f"
  obtains
    (break) rd ret pkt1 where
      "cat_avf s = Some rd" "av_read_frame env (hist s) rd pkt = (ret, pkt1)"
      "ret \<noteq> AVERROR_EOF" "f = Exit (Break ret pkt1 (emit (ReadFrame rd ret pkt1) s))"
  | (exhausted) rd pkt1 r2 s2 where
      "cat_avf s = Some rd" "av_read_frame env (hist s) rd pkt = (AVERROR_EOF, pkt1)"
      "open_next_file env (emit (ReadFrame rd AVERROR_EOF pkt1) s) = Some (r2, s2)"
      "r2 < 0" "CONCAT_MAX_OPEN_TRY < tc + 1"
      "f = Exit (GotoFail AVERROR_EOF pkt1 (store_error r2 s2))"
  | (retry) rd pkt1 r2 s2 where
      "cat_avf s = Some rd" "av_read_frame env (hist s) rd pkt = (AVERROR_EOF, pkt1)"
      "open_next_file env (emit (ReadFrame rd AVERROR_EOF pkt1) s) = Some (r2, s2)"
      "r2 < 0" "tc + 1 \<le> CONCAT_MAX_OPEN_TRY" "f = Continue (tc + 1) pkt1 s2"
  | (advanced) rd pkt1 s2 where
      "cat_avf s = Some rd" "av_read_frame env (hist s) rd pkt = (AVERROR_EOF, pkt1)"
      "open_next_file env (emit (ReadFrame rd AVERROR_EOF pkt1) s) = Some (0, s2)"
      "f = Continue tc pkt1 s2"
proof -
  from assms obtain rd where rd: "cat_avf s = Some rd"
    by (cases "cat_avf s") (auto simp: read_iter_def)
  obtain ret pkt1 where rf: "av_read_frame env (hist s) rd pkt = (ret, pkt1)"
    by (cases "av_read_frame env (hist s) rd pkt") auto
  show ?thesis
  proof (cases "ret = AVERROR_EOF")
    case False
    with assms rd rf have "f = Exit (Break ret pkt1 (emit (ReadFrame rd ret pkt1) s))"
      by (simp add: read_iter_def)
    with rd rf False show ?thesis by (intro break [of rd ret pkt1]) auto
  next
    case True
    let ?s1 = "emit (ReadFrame rd AVERROR_EOF pkt1) s"
    from assms rd rf True obtain r2 s2 where onf: "open_next_file env ?s1 = Some (r2, s2)"
      and f: "f = (if r2 < 0 then
                     if CONCAT_MAX_OPEN_TRY < tc + 1
                     then Exit (GotoFail AVERROR_EOF pkt1 (store_error r2 s2))
                     else Continue (tc + 1) pkt1 s2
                   else Continue tc pkt1 s2)"
      by (cases "open_next_file env ?s1") (auto simp: read_iter_def Let_def split: if_splits)
    show ?thesis
    proof (cases "r2 < 0")
      case r2: True
      show ?thesis
      proof (cases "CONCAT_MAX_OPEN_TRY < tc + 1")
        case True
        with rd rf \<open>ret = AVERROR_EOF\<close> onf r2 f show ?thesis
          by (intro exhausted [of rd pkt1 r2 s2]) auto
      next
        case False
        with rd rf \<open>ret = AVERROR_EOF\<close> onf r2 f show ?thesis
          by (intro retry [of rd pkt1 r2 s2]) auto
      qed
    next
      case False
      with open_next_file_ok [OF onf] have "r2 = 0" by simp
      with rd rf \<open>ret = AVERROR_EOF\<close> onf False f show ?thesis
        by (intro advanced [of rd pkt1 s2]) auto
    qed
  qed
qed

lemma store_error_state [simp]:
  "error (store_error ret s) = ret" "hist (store_error ret s) = hist s"
  "files (store_error ret s) = files s" "cur_file (store_error ret s) = cur_file s"
  "cat_avf (store_error ret s) = cat_avf s" "seekable (store_error ret s) = seekable s"
  by (simp_all add: store_error_def Let_def)

lemma read_loop_total:
  "active s \<Longrightarrow> \<exists>e. read_loop env tc pkt s = Some e"
proof (induction env tc pkt s rule: read_loop.induct)
  case (1 env tc pkt s)
  from "1.prems" obtain rd cur where rd: "cat_avf s = Some rd" and cur: "cur_file s = Some cur" "cur < length (files s)"
    by (auto simp: active_def split: option.splits)
  obtain ret pkt1 where rf: "av_read_frame env (hist s) rd pkt = (ret, pkt1)"
    by (cases "av_read_frame env (hist s) rd pkt") auto
  let ?s1 = "emit (ReadFrame rd AVERROR_EOF pkt1) s"
  from open_next_file_total [of ?s1 cur env] cur rd obtain r2 s2 where
    onf: "open_next_file env ?s1 = Some (r2, s2)" by auto
  from rd rf onf have "\<exists>f. read_iter env tc pkt s = Some f"
    by (simp add: read_iter_def Let_def)
  then obtain f where f: "read_iter env tc pkt s = Some f" ..
  show ?case
  proof (cases f)
    case (Exit e)
    with f show ?thesis by (simp add: read_loop.simps [of env tc pkt s])
  next
    case (Continue tc' pkt' s')
    with f have c: "read_iter env tc pkt s = Some (Continue tc' pkt' s')" by simp
    from read_iter_Continue [OF c] cur rd have "active s'" by (auto simp: active_def)
    from "1.IH" [OF f Continue this] c show ?thesis
      by (simp add: read_loop.simps [of env tc pkt s])
  qed
qed

lemma failed_append [simp]: "failed (as @ bs) = failed as @ failed bs"
  by (simp add: failed_def)

lemma failed_Nil [simp]: "failed [] = []"
  by (simp add: failed_def)

lemma failed_Cons [simp]: "failed ((i, r) # as) = (if r < 0 then (i, r) # failed as else failed as)"
  by (simp add: failed_def)

text \<open>
  What the loop has done when it ends, started with the counter \<open>tc\<close> and the active
  index \<open>cur\<close>: \<open>new\<close> are the returns of \<open>open_file\<close> and \<open>adv\<close> the returns of
  \<open>open_next_file\<close> since then, newest first.
\<close>

definition exit_ok ::
  "Env \<Rightarrow> nat \<Rightarrow> nat \<Rightarrow> State \<Rightarrow> loop_exit \<Rightarrow> (nat \<times> int) list \<Rightarrow> int list \<Rightarrow> bool" where
  "exit_ok env tc cur s e new adv =
     (attempts (hist (exit_state e)) = new @ attempts (hist s) \<and>
      advances (hist (exit_state e)) = adv @ advances (hist s) \<and>
      length (failed new) \<le> length (filter (\<lambda>r. r < 0) adv) \<and>
      sequential cur (rev new) \<and>
      cur_file (exit_state e) = Some (cur + length (filter (\<lambda>a. \<not> snd a < 0) new)) \<and>
      cur + length (filter (\<lambda>a. \<not> snd a < 0) new) < length (files (exit_state e)) \<and>
      length (files (exit_state e)) = length (files s) \<and>
      (case e of
         Break ret pkt' s' \<Rightarrow>
           ret \<noteq> AVERROR_EOF \<and> same_outer s s' \<and>
           tc + length (filter (\<lambda>r. r < 0) adv) \<le> CONCAT_MAX_OPEN_TRY \<and>
           (\<exists>rd h p. cat_avf s' = Some rd \<and> hist s' = ReadFrame rd ret pkt' # h \<and>
                     av_read_frame env h rd p = (ret, pkt'))
       | GotoFail ret pkt' s' \<Rightarrow>
           ret = AVERROR_EOF \<and> error s' < 0 \<and> seekable s' = seekable s \<and>
           tc + length (filter (\<lambda>r. r < 0) adv) = CONCAT_MAX_OPEN_TRY + 1 \<and>
           adv \<noteq> [] \<and> hd adv = error s' \<and>
           (if cur + length (filter (\<lambda>a. \<not> snd a < 0) new) + 1 < length (files s')
            then new \<noteq> [] \<and> hd new = (cur + length (filter (\<lambda>a. \<not> snd a < 0) new) + 1, error s')
            else error s' = AVERROR_EOF)))"

lemma read_loop_spec:
  "read_loop env tc pkt s = Some e \<Longrightarrow> cur_file s = Some cur \<Longrightarrow> cur < length (files s) \<Longrightarrow>
   tc \<le> CONCAT_MAX_OPEN_TRY \<Longrightarrow> \<exists>new adv. exit_ok env tc cur s e new adv"
proof (induction env tc pkt s arbitrary: cur rule: read_loop.induct)
  case (1 env tc pkt s)
  from "1.prems"(1) obtain f where f: "read_iter env tc pkt s = Some f"
    by (cases "read_iter env tc pkt s") (auto simp: read_loop.simps [of env tc pkt s])
  from f show ?case
  proof (cases rule: read_iter_cases)
    case (break rd ret pkt1)
    with "1.prems" f have e: "e = Break ret pkt1 (emit (ReadFrame rd ret pkt1) s)"
      by (simp add: read_loop.simps [of env tc pkt s])
    have "exit_ok env tc cur s e [] []"
      using break "1.prems" by (auto simp: e exit_ok_def)
    then show ?thesis by blast
  next
    case (exhausted rd pkt1 r2 s2)
    with "1.prems" f have e: "e = GotoFail AVERROR_EOF pkt1 (store_error r2 s2)"
      by (simp add: read_loop.simps [of env tc pkt s])
    note a = open_next_file_fail [OF exhausted(3,4)]
    from exhausted(5) "1.prems"(4) have tc: "tc = CONCAT_MAX_OPEN_TRY" by simp
    show ?thesis
    proof (cases "cur + 1 < length (files s)")
      case True
      have "exit_ok env tc cur s e [(cur + 1, r2)] [r2]"
        using a exhausted "1.prems" True tc by (auto simp: e exit_ok_def same_outer_def)
      then show ?thesis by blast
    next
      case False
      have "exit_ok env tc cur s e [] [r2]"
        using a exhausted "1.prems" False tc by (auto simp: e exit_ok_def same_outer_def)
      then show ?thesis by blast
    qed
  next
    case (retry rd pkt1 r2 s2)
    with "1.prems" f have e: "read_loop env (tc + 1) pkt1 s2 = Some e"
      by (simp add: read_loop.simps [of env tc pkt s])
    note a = open_next_file_fail [OF retry(3,4)]
    from a "1.prems" have c2: "cur_file s2 = Some cur" "cur < length (files s2)" by auto
    from "1.IH" [OF f retry(6) e c2 retry(5)] obtain new adv where
      n: "exit_ok env (tc + 1) cur s2 e new adv" by blast
    from a have ad: "advances (hist s2) = r2 # advances (hist s)" by simp
    show ?thesis
    proof (cases "cur + 1 < length (files s)")
      case True
      with a "1.prems" have at: "attempts (hist s2) = (cur + 1, r2) # attempts (hist s)" by auto
      have "exit_ok env tc cur s e (new @ [(cur + 1, r2)]) (adv @ [r2])"
        using n a at ad retry(4) "1.prems"
        by (cases e) (auto simp: exit_ok_def same_outer_def)
      then show ?thesis by blast
    next
      case False
      with a "1.prems" have at: "attempts (hist s2) = attempts (hist s)" by auto
      have "exit_ok env tc cur s e new (adv @ [r2])"
        using n a at ad retry(4) "1.prems"
        by (cases e) (auto simp: exit_ok_def same_outer_def)
      then show ?thesis by blast
    qed
  next
    case (advanced rd pkt1 s2)
    with "1.prems" f have e: "read_loop env tc pkt1 s2 = Some e"
      by (simp add: read_loop.simps [of env tc pkt s])
    have "\<not> (0::int) < 0" by simp
    note a = open_next_file_ok [OF advanced(3) this]
    from a "1.prems" have c2: "cur_file s2 = Some (cur + 1)" "cur + 1 < length (files s2)" by auto
    from "1.IH" [OF f advanced(4) e c2 "1.prems"(4)] obtain new adv where
      n: "exit_ok env tc (cur + 1) s2 e new adv" by blast
    from a "1.prems" have at: "attempts (hist s2) = (cur + 1, 0) # attempts (hist s)" by auto
    from a have ad: "advances (hist s2) = 0 # advances (hist s)" by simp
    have "exit_ok env tc cur s e (new @ [(cur + 1, 0)]) (adv @ [0])"
      using n a at ad "1.prems"
      by (cases e) (auto simp: exit_ok_def same_outer_def)
    then show ?thesis by blast
  qed
qed

lemma read_loop_total_exit:
  "read_loop env tc pkt s = Some (GotoFail ret pkt' s') \<Longrightarrow> ret = AVERROR_EOF"
proof (induction env tc pkt s rule: read_loop.induct)
  case (1 env tc pkt s)
  from "1.prems" obtain f where f: "read_iter env tc pkt s = Some f"
    by (cases "read_iter env tc pkt s") (auto simp: read_loop.simps [of env tc pkt s])
  show ?case
  proof (cases f)
    case (Exit e)
    with f "1.prems" have "f = Exit (GotoFail ret pkt' s')"
      by (simp add: read_loop.simps [of env tc pkt s])
    with f show ?thesis by (cases rule: read_iter_cases) auto
  next
    case (Continue tc' p' s2)
    with f "1.prems" have "read_loop env tc' p' s2 = Some (GotoFail ret pkt' s')"
      by (simp add: read_loop.simps [of env tc pkt s])
    from "1.IH" [OF f Continue this] show ?thesis .
  qed
qed

lemma read_loop_break:
  "read_loop env tc pkt s = Some (Break ret pkt' s') \<Longrightarrow>
     \<exists>rd h p. cat_avf s' = Some rd \<and> hist s' = ReadFrame rd ret pkt' # h \<and>
              av_read_frame env h rd p = (ret, pkt')"
proof (induction env tc pkt s rule: read_loop.induct)
  case (1 env tc pkt s)
  from "1.prems" obtain f where f: "read_iter env tc pkt s = Some f"
    by (cases "read_iter env tc pkt s") (auto simp: read_loop.simps [of env tc pkt s])
  show ?case
  proof (cases f)
    case (Exit e)
    with f "1.prems" have "f = Exit (Break ret pkt' s')"
      by (simp add: read_loop.simps [of env tc pkt s])
    with f show ?thesis by (cases rule: read_iter_cases) auto
  next
    case (Continue tc' p' s2)
    with f "1.prems" have "read_loop env tc' p' s2 = Some (Break ret pkt' s')"
      by (simp add: read_loop.simps [of env tc pkt s])
    from "1.IH" [OF f Continue this] show ?thesis .
  qed
qed

lemma concat_read_packet_sticky:
  "error s \<noteq> 0 \<Longrightarrow> concat_read_packet env pkt s = Some (error s, pkt, s)"
  by (simp add: concat_read_packet_def)

lemma concat_read_packet_cases:
  assumes "concat_read_packet env pkt s = Some (ret, pkt', s')" and "error s = 0"
  obtains
    (failed_read) "read_loop env 0 pkt s = Some (Break ret pkt' s')" "ret < 0"
  | (exhausted) "read_loop env 0 pkt s = Some (GotoFail ret pkt' s')"
  | (packet) pkt1 cur rd where
      "read_loop env 0 pkt s = Some (Break ret pkt1 s')" "\<not> ret < 0"
      "cur_file s' = Some cur" "cat_avf s' = Some rd" "cur < length (files s')"
      "pkt' = (let delta = av_rescale_q env
                     (start_time (files s' ! cur) - reader_start_time env (hist s') rd)
                     AV_TIME_BASE_Q (reader_time_base env (hist s') rd (stream_index pkt1));
                   pkt2 = (if pts pkt1 \<noteq> AV_NOPTS_VALUE then pkt1\<lparr>pts := pts pkt1 + delta\<rparr> else pkt1)
               in if dts pkt2 \<noteq> AV_NOPTS_VALUE then pkt2\<lparr>dts := dts pkt2 + delta\<rparr> else pkt2)"
proof -
  from assms obtain e where e: "read_loop env 0 pkt s = Some e"
    by (cases "read_loop env 0 pkt s") (auto simp: concat_read_packet_def)
  show ?thesis
  proof (cases e)
    case (GotoFail r p s1)
    with assms e show ?thesis by (intro exhausted) (simp add: concat_read_packet_def)
  next
    case (Break r p s1)
    show ?thesis
    proof (cases "r < 0")
      case True
      with assms e Break show ?thesis by (intro failed_read) (simp_all add: concat_read_packet_def)
    next
      case False
      with assms e Break obtain cur rd where c: "cur_file s1 = Some cur" "cat_avf s1 = Some rd"
        "cur < length (files s1)"
        by (cases "cur_file s1"; cases "cat_avf s1")
           (auto simp: concat_read_packet_def split: if_splits)
      with assms e Break False show ?thesis
        by (intro packet [of p cur rd]) (auto simp: concat_read_packet_def Let_def)
    qed
  qed
qed

lemma concat_read_packet_total:
  assumes "active s"
  shows "\<exists>ret pkt' s'. concat_read_packet env pkt s = Some (ret, pkt', s')"
proof (cases "error s = 0")
  case False
  then show ?thesis by (simp add: concat_read_packet_def)
next
  case True
  from read_loop_total [OF assms] obtain e where e: "read_loop env 0 pkt s = Some e" by blast
  from assms obtain cur where cur: "cur_file s = Some cur" "cur < length (files s)"
    by (auto simp: active_def split: option.splits)
  from read_loop_spec [OF e cur] obtain new adv where n: "exit_ok env 0 cur s e new adv" by auto
  show ?thesis
  proof (cases e)
    case (GotoFail r p s1)
    with True e show ?thesis by (simp add: concat_read_packet_def)
  next
    case (Break r p s1)
    with n True e show ?thesis
      by (auto simp: concat_read_packet_def exit_ok_def Let_def)
  qed
qed

lemma concat_read_packet_spec:
  assumes "concat_read_packet env pkt s = Some (ret, pkt', s')" and "error s = 0"
      and "cur_file s = Some cur" and "cur < length (files s)"
  shows "\<exists>new adv. attempts (hist s') = new @ attempts (hist s) \<and>
           advances (hist s') = adv @ advances (hist s) \<and>
           sequential cur (rev new) \<and>
           cur_file s' = Some (cur + length (filter (\<lambda>a. \<not> snd a < 0) new)) \<and>
           length (failed new) \<le> length (filter (\<lambda>r. r < 0) adv) \<and>
           length (filter (\<lambda>r. r < 0) adv) \<le> CONCAT_MAX_OPEN_TRY + 1 \<and>
           (if length (filter (\<lambda>r. r < 0) adv) = CONCAT_MAX_OPEN_TRY + 1
            then ret = AVERROR_EOF \<and> error s' < 0 \<and> adv \<noteq> [] \<and> hd adv = error s' \<and>
                 (if cur + length (filter (\<lambda>a. \<not> snd a < 0) new) + 1 < length (files s')
                  then new \<noteq> [] \<and>
                       hd new = (cur + length (filter (\<lambda>a. \<not> snd a < 0) new) + 1, error s')
                  else error s' = AVERROR_EOF)
            else ret \<noteq> AVERROR_EOF \<and> error s' = 0)"
  using assms(1,2)
proof (cases rule: concat_read_packet_cases)
  case failed_read
  from read_loop_spec [OF failed_read(1) assms(3,4)] obtain new adv where
    n: "exit_ok env 0 cur s (Break ret pkt' s') new adv" by auto
  with assms(2) show ?thesis
    by (intro exI [of _ new] exI [of _ adv]) (auto simp: exit_ok_def same_outer_def)
next
  case exhausted
  from read_loop_spec [OF exhausted(1) assms(3,4)] obtain new adv where
    n: "exit_ok env 0 cur s (GotoFail ret pkt' s') new adv" by auto
  then show ?thesis
    by (intro exI [of _ new] exI [of _ adv]) (auto simp: exit_ok_def)
next
  case (packet pkt1 cur' rd)
  from read_loop_spec [OF packet(1) assms(3,4)] obtain new adv where
    n: "exit_ok env 0 cur s (Break ret pkt1 s') new adv" by auto
  with assms(2) show ?thesis
    by (intro exI [of _ new] exI [of _ adv]) (auto simp: exit_ok_def same_outer_def)
qed




subsection \<open>The seek engine\<close>

lemma starts_sorted_nth:
  "starts_sorted fs \<Longrightarrow> i \<le> j \<Longrightarrow> j < length fs \<Longrightarrow> start_time (fs ! i) \<le>s start_time (fs ! j)"
  by (cases "i = j") (auto simp: starts_sorted_def sorted_wrt_iff_nth_less)

lemma bsearch_inv:
  "left < right \<Longrightarrow> right \<le> length fs \<Longrightarrow> starts_sorted fs \<Longrightarrow>
   left = 0 \<or> start_time (fs ! left) \<le>s ts \<Longrightarrow>
   right = length fs \<or> ts <s start_time (fs ! right) \<Longrightarrow>
   left \<le> bsearch fs ts left right \<and> bsearch fs ts left right < right \<and>
   (bsearch fs ts left right = 0 \<or> start_time (fs ! bsearch fs ts left right) \<le>s ts) \<and>
   (\<forall>j. bsearch fs ts left right < j \<and> j < length fs \<longrightarrow> ts <s start_time (fs ! j))"
proof (induction fs ts left right rule: bsearch.induct)
  case (1 fs ts left right)
  show ?case
  proof (cases "right - left > 1")
    case False
    with "1.prems" have r: "right = Suc left" by simp
    have "\<forall>j. left < j \<and> j < length fs \<longrightarrow> ts <s start_time (fs ! j)"
    proof (intro allI impI)
      fix j assume j: "left < j \<and> j < length fs"
      with r "1.prems" have "ts <s start_time (fs ! right)" by auto
      moreover from j r "1.prems" have "start_time (fs ! right) \<le>s start_time (fs ! j)"
        by (intro starts_sorted_nth) auto
      ultimately show "ts <s start_time (fs ! j)" by simp
    qed
    moreover from False have "bsearch fs ts left right = left"
      by (simp add: bsearch.simps [of fs ts left right])
    ultimately show ?thesis using r "1.prems" by simp
  next
    case True
    define mid where "mid = (left + right) div 2"
    from True have m: "left < mid" "mid < right" by (auto simp: mid_def)
    show ?thesis
    proof (cases "ts <s start_time (fs ! mid)")
      case lt: True
      have "left \<le> bsearch fs ts left mid \<and> bsearch fs ts left mid < mid \<and>
        (bsearch fs ts left mid = 0 \<or> start_time (fs ! bsearch fs ts left mid) \<le>s ts) \<and>
        (\<forall>j. bsearch fs ts left mid < j \<and> j < length fs \<longrightarrow> ts <s start_time (fs ! j))"
        using "1.IH"(1) [OF True mid_def lt] m "1.prems" lt by auto
      moreover have "bsearch fs ts left right = bsearch fs ts left mid"
        using True lt by (simp add: bsearch.simps [of fs ts left right] mid_def)
      ultimately show ?thesis using m by simp
    next
      case ge: False
      then have ge': "start_time (fs ! mid) \<le>s ts" by simp
      have "mid \<le> bsearch fs ts mid right \<and> bsearch fs ts mid right < right \<and>
        (bsearch fs ts mid right = 0 \<or> start_time (fs ! bsearch fs ts mid right) \<le>s ts) \<and>
        (\<forall>j. bsearch fs ts mid right < j \<and> j < length fs \<longrightarrow> ts <s start_time (fs ! j))"
        using "1.IH"(2) [OF True mid_def ge] m "1.prems" ge' by auto
      moreover have "bsearch fs ts left right = bsearch fs ts mid right"
        using True ge by (simp add: bsearch.simps [of fs ts left right] mid_def)
      ultimately show ?thesis using m by auto
    qed
  qed
qed

lemma locate_spec:
  assumes "fs \<noteq> []" and "starts_sorted fs"
  shows "locate fs ts < length fs \<and>
         (if \<exists>i<length fs. start_time (fs ! i) \<le>s ts
          then start_time (fs ! locate fs ts) \<le>s ts \<and>
               (\<forall>j<length fs. start_time (fs ! j) \<le>s ts \<longrightarrow> j \<le> locate fs ts)
          else locate fs ts = 0)"
proof -
  define k where "k = bsearch fs ts 0 (length fs)"
  from assms have inv: "k < length fs"
    "k = 0 \<or> start_time (fs ! k) \<le>s ts"
    "\<forall>j. k < j \<and> j < length fs \<longrightarrow> ts <s start_time (fs ! j)"
    using bsearch_inv [of 0 "length fs" fs ts] by (simp_all add: k_def)
  have above: "j \<le> k" if "j < length fs" "start_time (fs ! j) \<le>s ts" for j
  proof (rule ccontr)
    assume "\<not> j \<le> k"
    with that inv(3) have "ts <s start_time (fs ! j)" by simp
    with that show False by simp
  qed
  show ?thesis
  proof (cases "\<exists>i<length fs. start_time (fs ! i) \<le>s ts")
    case True
    then obtain i where i: "i < length fs" "start_time (fs ! i) \<le>s ts" by blast
    have "start_time (fs ! k) \<le>s ts"
    proof (cases "k = 0")
      case True
      with assms i have "start_time (fs ! k) \<le>s start_time (fs ! i)"
        by (intro starts_sorted_nth) auto
      with i show ?thesis by simp
    next
      case False
      with inv(2) show ?thesis by simp
    qed
    with True inv(1) above show ?thesis by (simp add: locate_def k_def)
  next
    case False
    with inv have "k = 0" by auto
    with False inv(1) show ?thesis by (simp add: locate_def k_def)
  qed
qed

lemma bsearch_range:
  "left < right \<Longrightarrow> left \<le> bsearch fs ts left right \<and> bsearch fs ts left right < right"
proof (induction fs ts left right rule: bsearch.induct)
  case (1 fs ts left right)
  show ?case
  proof (cases "right - left > 1")
    case False
    then show ?thesis using "1.prems" by (simp add: bsearch.simps [of fs ts left right])
  next
    case True
    define mid where "mid = (left + right) div 2"
    from True have m: "left < mid" "mid < right" by (auto simp: mid_def)
    show ?thesis
    proof (cases "ts <s start_time (fs ! mid)")
      case lt: True
      from "1.IH"(1) [OF True mid_def lt m(1)] m True lt show ?thesis
        by (simp add: bsearch.simps [of fs ts left right] mid_def)
    next
      case ge: False
      from "1.IH"(2) [OF True mid_def ge m(2)] m True ge show ?thesis
        by (simp add: bsearch.simps [of fs ts left right] mid_def)
    qed
  qed
qed

lemma locate_lt: "fs \<noteq> [] \<Longrightarrow> locate fs ts < length fs"
  using bsearch_range [of 0 "length fs" fs ts] by (simp add: locate_def)

lemma starts_increasing_sorted: "starts_increasing fs \<Longrightarrow> starts_sorted fs"
  unfolding starts_increasing_def starts_sorted_def
  by (erule sorted_wrt_mono_rel [rotated]) simp

lemma locate_start:
  assumes "starts_increasing fs" and "k < length fs"
  shows "locate fs (start_time (fs ! k)) = k"
proof -
  let ?l = "locate fs (start_time (fs ! k))"
  from assms have ne: "fs \<noteq> []" by auto
  have ex: "\<exists>i<length fs. start_time (fs ! i) \<le>s start_time (fs ! k)"
    using assms(2) by (intro exI [of _ k]) simp
  from locate_spec [OF ne starts_increasing_sorted [OF assms(1)], of "start_time (fs ! k)"] ex
  have l: "?l < length fs" "start_time (fs ! ?l) \<le>s start_time (fs ! k)"
    "\<forall>j<length fs. start_time (fs ! j) \<le>s start_time (fs ! k) \<longrightarrow> j \<le> ?l"
    by simp_all
  from l(3) assms(2) have "k \<le> ?l" by simp
  moreover have "\<not> k < ?l"
  proof
    assume "k < ?l"
    with assms(1) l(1) have "start_time (fs ! k) <s start_time (fs ! ?l)"
      by (simp add: starts_increasing_def sorted_wrt_iff_nth_less)
    with l(2) show False by simp
  qed
  ultimately show ?thesis by simp
qed

lemma try_seek_state:
  "try_seek env stream min_ts ts max_ts flags s = Some (ret, s') \<Longrightarrow>
     files s' = files s \<and> cur_file s' = cur_file s \<and> cat_avf s' = cat_avf s \<and>
     same_outer s s' \<and> live (hist s') = live (hist s) \<and>
     attempts (hist s') = attempts (hist s)"
  by (auto simp: try_seek_def Let_def split: option.splits if_splits prod.splits)

lemma try_seek_total:
  "cur_file s = Some cur \<Longrightarrow> cur < length (files s) \<Longrightarrow> cat_avf s \<noteq> None \<Longrightarrow>
     \<exists>ret s'. try_seek env stream min_ts ts max_ts flags s = Some (ret, s')"
  by (auto simp: try_seek_def Let_def split: option.splits if_splits prod.splits)

lemma real_seek_cases:
  assumes "real_seek env stream min_ts ts max_ts flags s = Some (ret, s')"
  obtains
    (bad_stream) "0 \<le> stream" "int (length (avf_streams s)) \<le> stream"
      "ret = AVERROR EINVAL" "s' = s"
  | (open_failed) mn t mx where
      "seek_window env s stream (min_ts, ts, max_ts) = (mn, t, mx)"
      "open_file env (locate (files s) t) s = Some (ret, s')" "ret < 0"
  | (sought) mn t mx s1 where
      "seek_window env s stream (min_ts, ts, max_ts) = (mn, t, mx)"
      "open_file env (locate (files s) t) s = Some (0, s1)"
      "try_seek env stream mn t mx flags s1 = Some (ret, s')"
      "\<not> (ret < 0 \<and> locate (files s) t < length (files s') - 1 \<and>
          start_time (files s' ! (locate (files s) t + 1)) <s mx)"
  | (fallback_failed) mn t mx s1 r2 s2 where
      "seek_window env s stream (min_ts, ts, max_ts) = (mn, t, mx)"
      "open_file env (locate (files s) t) s = Some (0, s1)"
      "try_seek env stream mn t mx flags s1 = Some (r2, s2)"
      "r2 < 0" "locate (files s) t < length (files s2) - 1"
      "start_time (files s2 ! (locate (files s) t + 1)) <s mx"
      "open_file env (locate (files s) t + 1) s2 = Some (ret, s')" "ret < 0"
  | (fallback) mn t mx s1 r2 s2 s3 where
      "seek_window env s stream (min_ts, ts, max_ts) = (mn, t, mx)"
      "open_file env (locate (files s) t) s = Some (0, s1)"
      "try_seek env stream mn t mx flags s1 = Some (r2, s2)"
      "r2 < 0" "locate (files s) t < length (files s2) - 1"
      "start_time (files s2 ! (locate (files s) t + 1)) <s mx"
      "open_file env (locate (files s) t + 1) s2 = Some (0, s3)"
      "try_seek env stream mn t mx flags s3 = Some (ret, s')"
proof (cases "0 \<le> stream \<and> int (length (avf_streams s)) \<le> stream")
  case True
  with assms have "ret = AVERROR EINVAL" "s' = s" by (auto simp: real_seek_def)
  with True show ?thesis by (intro bad_stream) simp_all
next
  case False
  obtain mn t mx where w: "seek_window env s stream (min_ts, ts, max_ts) = (mn, t, mx)"
    by (metis prod_cases3)
  let ?left = "locate (files s) t"
  from assms False w obtain r1 s1 where o1: "open_file env ?left s = Some (r1, s1)"
    and rest1: "(if r1 < 0 then Some (r1, s1) else
        (case try_seek env stream mn t mx flags s1 of None \<Rightarrow> None
         | Some (ret, s2) \<Rightarrow>
             if ret < 0 \<and> ?left < length (files s2) - 1 \<and> start_time (files s2 ! (?left + 1)) <s mx
             then (case open_file env (?left + 1) s2 of None \<Rightarrow> None
                   | Some (ret, s3) \<Rightarrow> if ret < 0 then Some (ret, s3)
                        else try_seek env stream mn t mx flags s3)
             else Some (ret, s2))) = Some (ret, s')"
    by (cases "open_file env ?left s") (auto simp: real_seek_def Let_def)
  show ?thesis
  proof (cases "r1 < 0")
    case True
    with rest1 have "ret = r1" "s' = s1" by simp_all
    with o1 True w show ?thesis by (intro open_failed [of mn t mx]) auto
  next
    case r1: False
    with open_file_ok [OF o1] have r10: "r1 = 0" by simp
    from rest1 r1 obtain r2 s2 where t2: "try_seek env stream mn t mx flags s1 = Some (r2, s2)"
      and rest2: "(if r2 < 0 \<and> ?left < length (files s2) - 1 \<and> start_time (files s2 ! (?left + 1)) <s mx
             then (case open_file env (?left + 1) s2 of None \<Rightarrow> None
                   | Some (ret, s3) \<Rightarrow> if ret < 0 then Some (ret, s3)
                        else try_seek env stream mn t mx flags s3)
             else Some (r2, s2)) = Some (ret, s')"
      by (cases "try_seek env stream mn t mx flags s1") auto
    show ?thesis
    proof (cases "r2 < 0 \<and> ?left < length (files s2) - 1 \<and> start_time (files s2 ! (?left + 1)) <s mx")
      case False
      with rest2 have "ret = r2" "s' = s2" by (simp_all split: if_splits)
      with w o1 r10 t2 False show ?thesis by (intro sought [of mn t mx s1]) auto
    next
      case True
      with rest2 obtain r3 s3 where o3: "open_file env (?left + 1) s2 = Some (r3, s3)"
        and rest3: "(if r3 < 0 then Some (r3, s3) else try_seek env stream mn t mx flags s3) = Some (ret, s')"
        by (cases "open_file env (?left + 1) s2") auto
      show ?thesis
      proof (cases "r3 < 0")
        case r3: True
        with rest3 have "ret = r3" "s' = s3" by simp_all
        with w o1 r10 t2 True o3 r3 show ?thesis by (intro fallback_failed [of mn t mx s1 r2 s2]) auto
      next
        case r3: False
        with open_file_ok [OF o3] have "r3 = 0" by simp
        moreover from rest3 r3 have "try_seek env stream mn t mx flags s3 = Some (ret, s')" by simp
        ultimately show ?thesis using w o1 r10 t2 True o3 by (intro fallback [of mn t mx s1 r2 s2 s3]) auto
      qed
    qed
  qed
qed

lemma real_seek_state:
  assumes "real_seek env stream min_ts ts max_ts flags s = Some (ret, s')"
      and "cat_avf s = None"
  shows "length (files s') = length (files s) \<and> same_outer s s' \<and>
         live (hist s') = live (hist s) + (case cat_avf s' of None \<Rightarrow> {#} | Some r \<Rightarrow> {#r#}) \<and>
         (\<not> ret < 0 \<longrightarrow> cat_avf s' \<noteq> None \<and> (\<exists>k. cur_file s' = Some k \<and> k < length (files s')))"
  using assms(1)
proof (cases rule: real_seek_cases)
  case bad_stream
  with assms(2) show ?thesis by (simp add: AVERROR_def EINVAL_def)
next
  case (open_failed mn t mx)
  from open_file_fail [OF open_failed(2,3)] open_failed(3) assms(2) show ?thesis by simp
next
  case (sought mn t mx s1)
  from open_file_ok [OF sought(2)] try_seek_state [OF sought(3)] open_file_index [OF sought(2)] assms(2)
  show ?thesis by (auto intro: same_outer_trans)
next
  case (fallback_failed mn t mx s1 r2 s2)
  from open_file_ok [OF fallback_failed(2)] try_seek_state [OF fallback_failed(3)]
    open_file_fail [OF fallback_failed(7,8)] fallback_failed(8) assms(2)
  show ?thesis by (auto intro: same_outer_trans)
next
  case (fallback mn t mx s1 r2 s2 s3)
  from open_file_ok [OF fallback(2)] try_seek_state [OF fallback(3)]
    open_file_ok [OF fallback(7)] try_seek_state [OF fallback(8)] open_file_index [OF fallback(7)] assms(2)
  show ?thesis by (auto intro: same_outer_trans)
qed

lemma real_seek_total:
  assumes "files s \<noteq> []"
  shows "\<exists>ret s'. real_seek env stream min_ts ts max_ts flags s = Some (ret, s')"
proof (cases "0 \<le> stream \<and> int (length (avf_streams s)) \<le> stream")
  case True
  then show ?thesis by (auto simp: real_seek_def Let_def)
next
  case False
  obtain mn t mx where w: "seek_window env s stream (min_ts, ts, max_ts) = (mn, t, mx)"
    by (metis prod_cases3)
  let ?left = "locate (files s) t"
  from locate_lt [OF assms] have l: "?left < length (files s)" .
  from open_file_total [OF l] obtain r1 s1 where o1: "open_file env ?left s = Some (r1, s1)" by blast
  show ?thesis
  proof (cases "r1 < 0")
    case True
    with False w o1 show ?thesis by (auto simp: real_seek_def Let_def)
  next
    case r1: False
    note a1 = open_file_ok [OF o1 r1]
    with l have "cur_file s1 = Some ?left" "?left < length (files s1)" "cat_avf s1 \<noteq> None" by auto
    from try_seek_total [OF this] obtain r2 s2 where
      t2: "try_seek env stream mn t mx flags s1 = Some (r2, s2)" by blast
    show ?thesis
    proof (cases "r2 < 0 \<and> ?left < length (files s2) - 1 \<and> start_time (files s2 ! (?left + 1)) <s mx")
      case False
      with w o1 r1 t2 \<open>\<not> (0 \<le> stream \<and> int (length (avf_streams s)) \<le> stream)\<close>
      show ?thesis by (auto simp: real_seek_def Let_def)
    next
      case True
      then have "?left + 1 < length (files s2)" by auto
      from open_file_total [OF this] obtain r3 s3 where
        o3: "open_file env (?left + 1) s2 = Some (r3, s3)" by blast
      show ?thesis
      proof (cases "r3 < 0")
        case r3: True
        with w o1 r1 t2 True o3 \<open>\<not> (0 \<le> stream \<and> int (length (avf_streams s)) \<le> stream)\<close>
        show ?thesis by (auto simp: real_seek_def Let_def)
      next
        case r3: False
        from open_file_ok [OF o3 r3] open_file_index [OF o3]
        have "cur_file s3 = Some (?left + 1)" "?left + 1 < length (files s3)" "cat_avf s3 \<noteq> None"
          by auto
        from try_seek_total [OF this] obtain r4 s4 where
          "try_seek env stream mn t mx flags s3 = Some (r4, s4)" by blast
        with w o1 r1 t2 True o3 r3 \<open>\<not> (0 \<le> stream \<and> int (length (avf_streams s)) \<le> stream)\<close>
        show ?thesis by (auto simp: real_seek_def Let_def)
      qed
    qed
  qed
qed

lemma nth_backfill_start_other: "j \<noteq> i \<Longrightarrow> backfill_start i fs ! j = fs ! j"
  by (simp add: backfill_start_def)

lemma attempts_close_input [simp]:
  "attempts (hist (avformat_close_input p s)) = attempts (hist s)"
  by (simp add: avformat_close_input_def split: option.splits)

lemma real_seek_lands:
  assumes "real_seek env stream min_ts ts max_ts flags s = Some (ret, s')"
      and "seek_window env s stream (min_ts, ts, max_ts) = (mn, t, mx)"
  shows "(\<exists>new. attempts (hist s') = new @ attempts (hist s) \<and>
            fst ` set new \<subseteq> {locate (files s) t, locate (files s) t + 1} \<and>
            (new \<noteq> [] \<longrightarrow> fst (last new) = locate (files s) t)) \<and>
         (\<not> ret < 0 \<longrightarrow>
            cur_file s' = Some (locate (files s) t) \<or>
            cur_file s' = Some (locate (files s) t + 1) \<and>
            locate (files s) t + 1 < length (files s) \<and>
            start_time (files s ! (locate (files s) t + 1)) <s mx \<and>
            (\<exists>s1 r2 s2. open_file env (locate (files s) t) s = Some (0, s1) \<and>
               try_seek env stream mn t mx flags s1 = Some (r2, s2) \<and> r2 < 0))"
  using assms(1)
proof (cases rule: real_seek_cases)
  case bad_stream
  then have "attempts (hist s') = [] @ attempts (hist s)" "ret < 0"
    by (simp_all add: AVERROR_def EINVAL_def)
  then show ?thesis by fastforce
next
  case (open_failed mn' t' mx')
  with assms(2) have o: "open_file env (locate (files s) t) s = Some (ret, s')" by simp
  from open_file_fail [OF o open_failed(3)]
  have "attempts (hist s') = [(locate (files s) t, ret)] @ attempts (hist s)" by simp
  with open_failed(3) show ?thesis by fastforce
next
  case (sought mn' t' mx' s1)
  with assms(2) have o: "open_file env (locate (files s) t) s = Some (0, s1)"
    and ts: "try_seek env stream mn t mx flags s1 = Some (ret, s')" by simp_all
  have z: "\<not> (0::int) < 0" by simp
  from open_file_ok [OF o z] try_seek_state [OF ts]
  have "attempts (hist s') = [(locate (files s) t, 0)] @ attempts (hist s)"
    "cur_file s' = Some (locate (files s) t)" by simp_all
  then show ?thesis by fastforce
next
  case (fallback_failed mn' t' mx' s1 r2 s2)
  with assms(2) have o: "open_file env (locate (files s) t) s = Some (0, s1)"
    and ts: "try_seek env stream mn t mx flags s1 = Some (r2, s2)"
    and o2: "open_file env (locate (files s) t + 1) s2 = Some (ret, s')" by simp_all
  have z: "\<not> (0::int) < 0" by simp
  from open_file_ok [OF o z] try_seek_state [OF ts] open_file_fail [OF o2 fallback_failed(8)]
  have "attempts (hist s') =
          [(locate (files s) t + 1, ret), (locate (files s) t, 0)] @ attempts (hist s)"
    by simp
  with fallback_failed(8) show ?thesis by fastforce
next
  case (fallback mn' t' mx' s1 r2 s2 s3)
  with assms(2) have o: "open_file env (locate (files s) t) s = Some (0, s1)"
    and ts: "try_seek env stream mn t mx flags s1 = Some (r2, s2)"
    and c: "locate (files s) t < length (files s2) - 1"
           "start_time (files s2 ! (locate (files s) t + 1)) <s mx"
    and o2: "open_file env (locate (files s) t + 1) s2 = Some (0, s3)"
    and ts2: "try_seek env stream mn t mx flags s3 = Some (ret, s')" by simp_all
  have z: "\<not> (0::int) < 0" by simp
  note a1 = open_file_ok [OF o z] and a2 = try_seek_state [OF ts]
    and a3 = open_file_ok [OF o2 z] and a4 = try_seek_state [OF ts2]
  from a1 a2 a3 a4
  have at: "attempts (hist s') =
          [(locate (files s) t + 1, 0), (locate (files s) t, 0)] @ attempts (hist s)"
    and cf: "cur_file s' = Some (locate (files s) t + 1)" by simp_all
  from a1 a2 have fs2: "files s2 = backfill_start (locate (files s) t) (files s)" by simp
  with c have "locate (files s) t + 1 < length (files s)"
    "start_time (files s ! (locate (files s) t + 1)) <s mx"
    by (simp_all add: nth_backfill_start_other)
  with at cf o ts fallback(4) show ?thesis by fastforce
qed

lemma seek_flags_test:
  "(flags AND (AVSEEK_FLAG_BYTE OR AVSEEK_FLAG_FRAME) \<noteq> 0) =
   (flags AND AVSEEK_FLAG_BYTE \<noteq> 0 \<or> flags AND AVSEEK_FLAG_FRAME \<noteq> 0)"
  by (simp add: bit.conj_disj_distrib or_eq_0_iff)

lemma avformat_close_input_state:
  "files (avformat_close_input p s) = files s"
  "cur_file (avformat_close_input p s) = cur_file s"
  "cat_avf (avformat_close_input p s) = cat_avf s"
  "error (avformat_close_input p s) = error s"
  "live (hist (avformat_close_input p s)) =
     live (hist s) - (case p of None \<Rightarrow> {#} | Some r \<Rightarrow> {#r#})"
  by (simp_all add: avformat_close_input_def split: option.splits)

lemma concat_seek_total:
  assumes "files s \<noteq> []"
  shows "\<exists>ret s'. concat_seek env stream min_ts ts max_ts flags s = Some (ret, s')"
proof -
  from assms have "files (s\<lparr>error := 0, cat_avf := None\<rparr>) \<noteq> []" by simp
  from real_seek_total [OF this, of env stream min_ts ts max_ts flags]
  show ?thesis by (auto simp: concat_seek_def Let_def)
qed

lemma concat_seek_error:
  assumes "concat_seek env stream min_ts ts max_ts flags s = Some (ret, s')"
  shows "error s' = 0"
proof (cases "seekable s = 0 \<or> flags AND (AVSEEK_FLAG_BYTE OR AVSEEK_FLAG_FRAME) \<noteq> 0")
  case True
  with assms show ?thesis by (auto simp: concat_seek_def Let_def split: if_splits)
next
  case False
  with assms obtain r1 s1 where
    rs: "real_seek env stream min_ts ts max_ts flags (s\<lparr>error := 0, cat_avf := None\<rparr>) = Some (r1, s1)"
    and s': "s' = (if r1 < 0 then (avformat_close_input (cat_avf s1) s1)\<lparr>cat_avf := cat_avf s, cur_file := cur_file s\<rparr>
                   else avformat_close_input (cat_avf s) s1)"
    by (cases "real_seek env stream min_ts ts max_ts flags (s\<lparr>error := 0, cat_avf := None\<rparr>)")
       (auto simp: concat_seek_def Let_def split: if_splits)
  from real_seek_state [OF rs] have "error s1 = 0" by (simp add: same_outer_def)
  with s' show ?thesis by (simp add: avformat_close_input_state)
qed

subsection \<open>The backfill pass\<close>

lemma backfill_loop_spec:
  assumes "\<forall>j. i \<le> j \<and> j < length fs \<longrightarrow> start_time (fs ! j) = AV_NOPTS_VALUE"
      and "i \<le> length fs"
      and "backfill_loop fs i time = (fs', i', time')"
  shows "length fs' = length fs \<and> i \<le> i' \<and> i' \<le> length fs \<and>
     (\<forall>j<length fs. duration (fs' ! j) = duration (fs ! j) \<and> url (fs' ! j) = url (fs ! j)) \<and>
     (\<forall>j<i. fs' ! j = fs ! j) \<and>
     (\<forall>j. i \<le> j \<and> j < length fs \<and> j \<le> i' \<longrightarrow>
          start_time (fs' ! j) = time + (\<Sum>k = i..<j. duration (fs ! k))) \<and>
     (\<forall>j. i' < j \<and> j < length fs \<longrightarrow> start_time (fs' ! j) = AV_NOPTS_VALUE) \<and>
     (\<forall>j. i \<le> j \<and> j < i' \<longrightarrow> duration (fs ! j) \<noteq> AV_NOPTS_VALUE) \<and>
     (i' < length fs \<longrightarrow> duration (fs ! i') = AV_NOPTS_VALUE) \<and>
     (i' = length fs \<longrightarrow> time' = time + (\<Sum>k = i..<length fs. duration (fs ! k)))"
  using assms
proof (induction fs i time arbitrary: fs' i' time' rule: backfill_loop.induct)
  case (1 fs i time)
  show ?case
  proof (cases "i < length fs")
    case False
    with "1.prems"(3) have "fs' = fs" "i' = i" "time' = time"
      by (simp_all add: backfill_loop.simps [of fs i time])
    with False "1.prems"(2) show ?thesis by auto
  next
    case True
    define fs1 where "fs1 = (if start_time (fs ! i) = AV_NOPTS_VALUE
                   then fs[i := (fs ! i)\<lparr>start_time := time\<rparr>] else fs)"
    define time1 where "time1 = (if start_time (fs ! i) = AV_NOPTS_VALUE then time else start_time (fs ! i))"
    from "1.prems"(1) True have nopts: "start_time (fs ! i) = AV_NOPTS_VALUE" by simp
    then have fs1: "fs1 = fs[i := (fs ! i)\<lparr>start_time := time\<rparr>]" and t1: "time1 = time"
      by (simp_all add: fs1_def time1_def)
    have step: "backfill_loop fs i time =
        (if duration (fs1 ! i) = AV_NOPTS_VALUE then (fs1, i, time1)
         else backfill_loop fs1 (i + 1) (time1 + duration (fs1 ! i)))"
      using True by (subst backfill_loop.simps) (simp add: fs1_def time1_def Let_def)
    show ?thesis
    proof (cases "duration (fs1 ! i) = AV_NOPTS_VALUE")
      case d: True
      with step "1.prems"(3) have r: "fs' = fs1" "i' = i" "time' = time1"
        by simp_all
      from True d "1.prems"(1) show ?thesis
        by (auto simp: r fs1 nth_list_update)
    next
      case d: False
      with step "1.prems"(3) have r: "backfill_loop fs1 (i + 1) (time1 + duration (fs1 ! i)) = (fs', i', time')"
        by simp
      have p1: "\<forall>j. i + 1 \<le> j \<and> j < length fs1 \<longrightarrow> start_time (fs1 ! j) = AV_NOPTS_VALUE"
        using "1.prems"(1) by (simp add: fs1)
      have p2: "i + 1 \<le> length fs1" using True by (simp add: fs1)
      note ih = "1.IH" [OF True fs1_def time1_def d p1 p2 r]
      have dur: "duration (fs1 ! j) = duration (fs ! j)" if "j < length fs" for j
        using that by (cases "j = i") (simp_all add: fs1)
      have len: "length fs1 = length fs" by (simp add: fs1)
      have st: "start_time (fs' ! j) = time + (\<Sum>k = i..<j. duration (fs ! k))"
        if j: "i \<le> j" "j < length fs" "j \<le> i'" for j
      proof (cases "j = i")
        case True
        with ih j have "fs' ! j = fs1 ! i" by simp
        with True j show ?thesis by (simp add: fs1)
      next
        case False
        with j have j1: "i + 1 \<le> j" by simp
        with ih j len have "start_time (fs' ! j) = (time1 + duration (fs1 ! i)) + (\<Sum>k = i + 1..<j. duration (fs1 ! k))"
          by simp
        also have "(\<Sum>k = i + 1..<j. duration (fs1 ! k)) = (\<Sum>k = i + 1..<j. duration (fs ! k))"
          using j by (intro sum.cong) (auto simp: dur)
        also have "(time1 + duration (fs1 ! i)) + (\<Sum>k = i + 1..<j. duration (fs ! k)) = time + (\<Sum>k = i..<j. duration (fs ! k))"
          using j1 True by (simp add: t1 dur sum.atLeast_Suc_lessThan add.assoc)
        finally show ?thesis .
      qed
      have tot: "time' = time + (\<Sum>k = i..<length fs. duration (fs ! k))" if "i' = length fs"
      proof -
        from ih that len have "time' = (time1 + duration (fs1 ! i)) + (\<Sum>k = i + 1..<length fs. duration (fs1 ! k))"
          by simp
        also have "(\<Sum>k = i + 1..<length fs. duration (fs1 ! k)) = (\<Sum>k = i + 1..<length fs. duration (fs ! k))"
          by (intro sum.cong) (auto simp: dur)
        also have "(time1 + duration (fs1 ! i)) + (\<Sum>k = i + 1..<length fs. duration (fs ! k)) = time + (\<Sum>k = i..<length fs. duration (fs ! k))"
          using True by (simp add: t1 dur sum.atLeast_Suc_lessThan add.assoc)
        finally show ?thesis .
      qed
      have known: "duration (fs ! j) \<noteq> AV_NOPTS_VALUE" if "i \<le> j" "j < i'" for j
      proof (cases "j = i")
        case True
        with d dur [of i] \<open>i < length fs\<close> show ?thesis by simp
      next
        case False
        with that ih len dur [of j] show ?thesis by auto
      qed
      have before: "fs' ! j = fs ! j" if "j < i" for j
        using that ih by (simp add: fs1)
      have fields: "duration (fs' ! j) = duration (fs ! j) \<and> url (fs' ! j) = url (fs ! j)" if "j < length fs" for j
        using that ih len by (cases "j = i") (auto simp: fs1 nth_list_update)
      from ih len st tot known before fields True show ?thesis
        by (auto simp: dur)
    qed
  qed
qed

lemma sint_sum_in_range:
  fixes f :: "nat \<Rightarrow> int64"
  assumes "\<forall>i\<le>n. - (2 ^ 63) \<le> (\<Sum>k<i. sint (f k)) \<and> (\<Sum>k<i. sint (f k)) < 2 ^ 63"
  shows "sint (\<Sum>k<n. f k) = (\<Sum>k<n. sint (f k))"
  using assms
proof (induction n)
  case 0
  then show ?case by simp
next
  case (Suc n)
  from Suc.prems have "\<forall>i\<le>n. - (2 ^ 63) \<le> (\<Sum>k<i. sint (f k)) \<and> (\<Sum>k<i. sint (f k)) < 2 ^ 63"
    by simp
  from Suc.IH [OF this] have ih: "sint (\<Sum>k<n. f k) = (\<Sum>k<n. sint (f k))" .
  from Suc.prems have r: "- (2 ^ 63) \<le> (\<Sum>k<Suc n. sint (f k))" "(\<Sum>k<Suc n. sint (f k)) < 2 ^ 63"
    by auto
  have "sint ((\<Sum>k<n. f k) + f n) = signed_take_bit 63 (sint (\<Sum>k<n. f k) + sint (f n))"
    by (simp add: sint_word_ariths)
  also have "\<dots> = signed_take_bit 63 (\<Sum>k<Suc n. sint (f k))"
    by (simp add: ih)
  also have "\<dots> = (\<Sum>k<Suc n. sint (f k))"
    using r by (intro signed_take_bit_int_eq_self) simp_all
  finally show ?case by simp
qed

subsection \<open>Runs of the example\<close>

lemma locate_example: "locate example_table 12000000 = 1"
  by (simp add: locate_def example_table_def bsearch.simps)

lemma first_read_example:
  "concat_read_packet (example_env (- 5)) example_packet example_state =
     Some (AVERROR_EOF, example_packet, sticky_state)"
  by code_simp

lemma second_read_example:
  "concat_read_packet (example_env (- 5)) example_packet sticky_state =
     Some (- 5, example_packet, sticky_state)"
  by code_simp



lemma third_segment_example:
  "concat_seek (example_env 0) (- 1) 0 16000000 INT64_MAX 0 example_state =
     Some (0, third_segment_state)"
  by code_simp

lemma table_end_example:
  "concat_read_packet (example_env 0) example_packet third_segment_state =
     Some (AVERROR_EOF, example_packet, table_end_state)"
  by code_simp




lemma reading_example:
  "concat_read_packet reading_env example_packet second_segment_state =
     Some (0, example_packet\<lparr>pts := 10040, dts := AV_NOPTS_VALUE, stream_index := 0\<rparr>,
           second_segment_state\<lparr>hist :=
             ReadFrame 4 0 (example_packet\<lparr>pts := 40, dts := AV_NOPTS_VALUE, stream_index := 0\<rparr>) #
             hist second_segment_state\<rparr>)"
  by code_simp

lemma edge_seek_example:
  "concat_seek edge_env (- 1) 0 10000000 INT64_MAX 0 example_state =
     Some (0, example_state\<lparr>cur_file := Some 2, cat_avf := Some 9,
       hist := [CloseInput 0,
                SeekFile 9 (- 1) (- 15000000) (- 5000000) INT64_MAX 0 0,
                OpenFile 2 0, CloseInput 4, FindStreamInfo 9 0, OpenInput 9 ''c'' 0,
                AllocContext (Some 9),
                SeekFile 4 (- 1) (- 10000000) 0 INT64_MAX 0 (- 1),
                OpenFile 1 0, FindStreamInfo 4 0, OpenInput 4 ''b'' 0,
                AllocContext (Some 4)] @ hist example_state\<rparr>)"
  by code_simp

section \<open>Properties\<close>

text \<open>
  C1 (as amended). From an active state \<open>concat_read_packet\<close> returns. While no
  sticky error is set, at most \<open>CONCAT_MAX_OPEN_TRY + 1 = 4\<close> returns of
  \<open>open_next_file\<close> in one call are failures, the first attempt and at most 3 retries;
  the failed returns of \<open>open_file\<close> are among them, the others are failures at the end
  of the table. The call in which the fourth fails sets the sticky error and returns
  \<open>AVERROR_EOF\<close>: the error stored is the negative code that this last
  \<open>open_next_file\<close> returned, which is the code of the last \<open>open_file\<close>, called for
  the successor of the active segment, or \<open>AVERROR_EOF\<close> when the active segment is the
  last of the table. A call in which fewer than four fail leaves the sticky error at 0
  and does not return \<open>AVERROR_EOF\<close>. Once the sticky error is set, a call returns the
  stored code itself and changes nothing: the packet, the state and the history are the
  same, so nothing is opened and nothing is read. The stored code is not
  \<open>AVERROR_EOF\<close> in general, so the later calls do not return what the first one
  returned.
\<close>

theorem read_packet_retry_bound:
  assumes "active s"
  shows "\<exists>ret pkt' s'. concat_read_packet env pkt s = Some (ret, pkt', s') \<and>
     (if error s \<noteq> 0 then ret = error s \<and> pkt' = pkt \<and> s' = s
      else \<exists>new adv k.
             attempts (hist s') = new @ attempts (hist s) \<and>
             advances (hist s') = adv @ advances (hist s) \<and>
             cur_file s' = Some k \<and>
             length (failed new) \<le> length (filter (\<lambda>r. r < 0) adv) \<and>
             length (filter (\<lambda>r. r < 0) adv) \<le> CONCAT_MAX_OPEN_TRY + 1 \<and>
             (if length (filter (\<lambda>r. r < 0) adv) = CONCAT_MAX_OPEN_TRY + 1
              then ret = AVERROR_EOF \<and> error s' < 0 \<and> adv \<noteq> [] \<and> error s' = hd adv \<and>
                   (if k + 1 < length (files s')
                    then new \<noteq> [] \<and> hd new = (k + 1, error s')
                    else error s' = AVERROR_EOF)
              else ret \<noteq> AVERROR_EOF \<and> error s' = 0))"
proof (cases "error s = 0")
  case False
  then show ?thesis by (simp add: concat_read_packet_sticky)
next
  case True
  from concat_read_packet_total [OF assms] obtain ret pkt' s' where
    r: "concat_read_packet env pkt s = Some (ret, pkt', s')" by blast
  from assms obtain cur where cur: "cur_file s = Some cur" "cur < length (files s)"
    by (auto simp: active_def split: option.splits)
  from concat_read_packet_spec [OF r True cur] obtain new adv where
    n: "attempts (hist s') = new @ attempts (hist s)"
       "advances (hist s') = adv @ advances (hist s)"
       "cur_file s' = Some (cur + length (filter (\<lambda>a. \<not> snd a < 0) new))"
       "length (failed new) \<le> length (filter (\<lambda>r. r < 0) adv)"
       "length (filter (\<lambda>r. r < 0) adv) \<le> CONCAT_MAX_OPEN_TRY + 1"
       "if length (filter (\<lambda>r. r < 0) adv) = CONCAT_MAX_OPEN_TRY + 1
        then ret = AVERROR_EOF \<and> error s' < 0 \<and> adv \<noteq> [] \<and> hd adv = error s' \<and>
             (if cur + length (filter (\<lambda>a. \<not> snd a < 0) new) + 1 < length (files s')
              then new \<noteq> [] \<and>
                   hd new = (cur + length (filter (\<lambda>a. \<not> snd a < 0) new) + 1, error s')
              else error s' = AVERROR_EOF)
        else ret \<noteq> AVERROR_EOF \<and> error s' = 0"
    by blast
  let ?k = "cur + length (filter (\<lambda>a. \<not> snd a < 0) new)"
  have "attempts (hist s') = new @ attempts (hist s) \<and>
        advances (hist s') = adv @ advances (hist s) \<and>
        cur_file s' = Some ?k \<and>
        length (failed new) \<le> length (filter (\<lambda>r. r < 0) adv) \<and>
        length (filter (\<lambda>r. r < 0) adv) \<le> CONCAT_MAX_OPEN_TRY + 1 \<and>
        (if length (filter (\<lambda>r. r < 0) adv) = CONCAT_MAX_OPEN_TRY + 1
         then ret = AVERROR_EOF \<and> error s' < 0 \<and> adv \<noteq> [] \<and> error s' = hd adv \<and>
              (if ?k + 1 < length (files s')
               then new \<noteq> [] \<and> hd new = (?k + 1, error s')
               else error s' = AVERROR_EOF)
         else ret \<noteq> AVERROR_EOF \<and> error s' = 0)"
    using n by (simp split: if_splits)
  then have "\<exists>new adv k.
        attempts (hist s') = new @ attempts (hist s) \<and>
        advances (hist s') = adv @ advances (hist s) \<and>
        cur_file s' = Some k \<and>
        length (failed new) \<le> length (filter (\<lambda>r. r < 0) adv) \<and>
        length (filter (\<lambda>r. r < 0) adv) \<le> CONCAT_MAX_OPEN_TRY + 1 \<and>
        (if length (filter (\<lambda>r. r < 0) adv) = CONCAT_MAX_OPEN_TRY + 1
         then ret = AVERROR_EOF \<and> error s' < 0 \<and> adv \<noteq> [] \<and> error s' = hd adv \<and>
              (if k + 1 < length (files s')
               then new \<noteq> [] \<and> hd new = (k + 1, error s')
               else error s' = AVERROR_EOF)
         else ret \<noteq> AVERROR_EOF \<and> error s' = 0)"
    by (intro exI [of _ new] exI [of _ adv] exI [of _ ?k])
  with r True show ?thesis by simp
qed

theorem read_packet_retry_bound_witness:
  "active example_state \<and> error example_state = 0 \<and>
   (\<exists>s'. concat_read_packet (example_env (- 5)) example_packet example_state =
           Some (AVERROR_EOF, example_packet, s') \<and>
         error s' = - 5 \<and>
         attempts (hist s') =
           [(1, - 5), (1, - 5), (1, - 5), (1, - 5)] @ attempts (hist example_state) \<and>
         advances (hist s') = [- 5, - 5, - 5, - 5] @ advances (hist example_state) \<and>
         concat_read_packet (example_env (- 5)) example_packet s' = Some (- 5, example_packet, s')) \<and>
   active third_segment_state \<and> error third_segment_state = 0 \<and>
   (\<exists>s'. concat_read_packet (example_env 0) example_packet third_segment_state =
           Some (AVERROR_EOF, example_packet, s') \<and>
         error s' = AVERROR_EOF \<and>
         attempts (hist s') = [] @ attempts (hist third_segment_state) \<and>
         advances (hist s') =
           [AVERROR_EOF, AVERROR_EOF, AVERROR_EOF, AVERROR_EOF] @
           advances (hist third_segment_state) \<and>
         concat_read_packet (example_env 0) example_packet s' =
           Some (AVERROR_EOF, example_packet, s'))"
proof -
  have a: "active example_state" by code_simp
  have a0: "error example_state = 0" by code_simp
  have s: "active sticky_state" by code_simp
  have e: "error sticky_state = - 5" by code_simp
  have at: "attempts (hist sticky_state) =
           [(1, - 5), (1, - 5), (1, - 5), (1, - 5)] @ attempts (hist example_state)" by code_simp
  have ad: "advances (hist sticky_state) =
           [- 5, - 5, - 5, - 5] @ advances (hist example_state)" by code_simp
  from read_packet_retry_bound [OF s, of "example_env (- 5)" example_packet] e
  have 1: "concat_read_packet (example_env (- 5)) example_packet sticky_state =
          Some (- 5, example_packet, sticky_state)" by auto
  have b: "active third_segment_state" by code_simp
  have b0: "error third_segment_state = 0" by code_simp
  have t: "active table_end_state" by code_simp
  have f: "error table_end_state = AVERROR_EOF" by code_simp
  have bt: "attempts (hist table_end_state) = [] @ attempts (hist third_segment_state)"
    by code_simp
  have bd: "advances (hist table_end_state) =
           [AVERROR_EOF, AVERROR_EOF, AVERROR_EOF, AVERROR_EOF] @
           advances (hist third_segment_state)" by code_simp
  from read_packet_retry_bound [OF a, of "example_env (- 5)" example_packet]
    first_read_example a0
  have 3: "error sticky_state < 0" by (auto split: if_splits)
  have "AVERROR_EOF \<noteq> 0" by (simp add: AVERROR_EOF_def)
  with read_packet_retry_bound [OF t, of "example_env 0" example_packet] f
  have 2: "concat_read_packet (example_env 0) example_packet table_end_state =
          Some (AVERROR_EOF, example_packet, table_end_state)" by auto
  from a a0 first_read_example e at ad 1 3 b b0 table_end_example f bt bd 2
  show ?thesis by blast
qed

theorem sticky_read_counterexample:
  "concat_read_packet (example_env (- 5)) example_packet example_state =
     Some (AVERROR_EOF, example_packet, sticky_state) \<and>
   concat_read_packet (example_env (- 5)) example_packet sticky_state =
     Some (- 5, example_packet, sticky_state) \<and>
   - 5 \<noteq> AVERROR_EOF"
  using first_read_example second_read_example by (simp add: AVERROR_EOF_def)

text \<open>
  C2 (as amended). \<open>concat_seek\<close> resets the sticky error before any check, so every
  seek that returns, successful or failing, leaves it at 0; this holds also for a seek
  rejected for a table that is not seekable or for the byte and frame flags. A read
  never resets it: with the sticky error set, \<open>concat_read_packet\<close> returns it and
  leaves the state as it is.
\<close>

theorem seek_clears_sticky_error:
  assumes "files s \<noteq> []"
  shows "(\<exists>ret s'. concat_seek env stream min_ts ts max_ts flags s = Some (ret, s') \<and>
            error s' = 0) \<and>
         (error s \<noteq> 0 \<longrightarrow> concat_read_packet env pkt s = Some (error s, pkt, s))"
proof -
  from concat_seek_total [OF assms] obtain ret s' where
    c: "concat_seek env stream min_ts ts max_ts flags s = Some (ret, s')" by blast
  from concat_seek_error [OF c] c show ?thesis by (auto simp: concat_read_packet_sticky)
qed

theorem seek_clears_sticky_error_witness:
  "files sticky_state \<noteq> [] \<and> error sticky_state \<noteq> 0 \<and>
   (\<exists>s'. concat_seek (example_env (- 5)) (- 1) 0 12000000 INT64_MAX 0 sticky_state =
           Some (- 5, s') \<and> error s' = 0) \<and>
   concat_read_packet (example_env (- 5)) example_packet sticky_state =
     Some (error sticky_state, example_packet, sticky_state)"
proof -
  have h: "files sticky_state \<noteq> []" by code_simp
  have e: "error sticky_state \<noteq> 0" by code_simp
  have r: "fst (the (concat_seek (example_env (- 5)) (- 1) 0 12000000 INT64_MAX 0 sticky_state)) = - 5"
    by code_simp
  from seek_clears_sticky_error [OF h, of "example_env (- 5)" "- 1" 0 12000000 INT64_MAX 0 example_packet] e r
  show ?thesis using h by auto
qed

theorem failing_seek_clears_error_counterexample:
  "concat_read_packet (example_env (- 5)) example_packet example_state =
     Some (AVERROR_EOF, example_packet, sticky_state) \<and>
   error sticky_state = - 5 \<and>
   concat_seek (example_env (- 5)) (- 1) 0 12000000 INT64_MAX AVSEEK_FLAG_BYTE sticky_state =
     Some (AVERROR ENOSYS, sticky_state\<lparr>error := 0\<rparr>) \<and>
   AVERROR ENOSYS < 0 \<and> error (sticky_state\<lparr>error := 0\<rparr>) = 0"
proof -
  have "error sticky_state = - 5" by code_simp
  moreover have "concat_seek (example_env (- 5)) (- 1) 0 12000000 INT64_MAX AVSEEK_FLAG_BYTE sticky_state =
     Some (AVERROR ENOSYS, sticky_state\<lparr>error := 0\<rparr>)" by code_simp
  ultimately show ?thesis using first_read_example by (simp add: AVERROR_def ENOSYS_def)
qed



text \<open>
  C4. The table as the builder leaves it holds, for each segment of the list, its url,
  its duration and the start time \<open>AV_NOPTS_VALUE\<close>; \<open>seekable\<close> is 0. The backfill
  pass keeps the urls and the durations. When every duration is explicit, it sets
  \<open>seekable\<close> to 1, the start time of each segment is the sum of the durations before it
  (so the first is 0 and each next one is the previous start time plus the previous
  duration) and \<open>avf->duration\<close> is the sum of all durations. The sums are those of
  \<open>int64_t\<close>; when no partial sum leaves the range of \<open>int64_t\<close>, they are the sums of
  the durations as integers. When some duration is \<open>AV_NOPTS_VALUE\<close>, \<open>seekable\<close> stays
  0 and \<open>avf->duration\<close> is not written; up to the first such segment the start times
  are the sums of the durations before, and after it they stay \<open>AV_NOPTS_VALUE\<close>.
\<close>

theorem header_backfill_start_times:
  assumes "files s = map new_file segs" and "seekable s = 0"
  shows "length (files (header_backfill s)) = length segs \<and>
     (\<forall>i<length segs. url (files (header_backfill s) ! i) = fst (segs ! i) \<and>
                        duration (files (header_backfill s) ! i) = snd (segs ! i)) \<and>
     (if \<forall>seg\<in>set segs. snd seg \<noteq> AV_NOPTS_VALUE
      then seekable (header_backfill s) = 1 \<and>
           (\<forall>i<length segs. start_time (files (header_backfill s) ! i) = (\<Sum>k<i. snd (segs ! k))) \<and>
           (\<forall>i. i + 1 < length segs \<longrightarrow>
                start_time (files (header_backfill s) ! (i + 1)) =
                start_time (files (header_backfill s) ! i) + duration (files (header_backfill s) ! i)) \<and>
           (0 < length segs \<longrightarrow> start_time (files (header_backfill s) ! 0) = 0) \<and>
           avf_duration (header_backfill s) = sum_list (map snd segs) \<and>
           ((\<forall>i\<le>length segs. - (2 ^ 63) \<le> (\<Sum>k<i. sint (snd (segs ! k))) \<and>
                                 (\<Sum>k<i. sint (snd (segs ! k))) < 2 ^ 63) \<longrightarrow>
              (\<forall>i<length segs. sint (start_time (files (header_backfill s) ! i)) =
                                 (\<Sum>k<i. sint (snd (segs ! k)))) \<and>
              sint (avf_duration (header_backfill s)) = (\<Sum>seg\<leftarrow>segs. sint (snd seg)))
      else seekable (header_backfill s) = 0 \<and>
           avf_duration (header_backfill s) = avf_duration s \<and>
           (\<exists>m<length segs. snd (segs ! m) = AV_NOPTS_VALUE \<and>
              (\<forall>j<m. snd (segs ! j) \<noteq> AV_NOPTS_VALUE) \<and>
              (\<forall>i\<le>m. start_time (files (header_backfill s) ! i) = (\<Sum>k<i. snd (segs ! k))) \<and>
              (\<forall>i<m. start_time (files (header_backfill s) ! (i + 1)) =
                       start_time (files (header_backfill s) ! i) +
                       duration (files (header_backfill s) ! i)) \<and>
              (\<forall>i. m < i \<and> i < length segs \<longrightarrow>
                   start_time (files (header_backfill s) ! i) = AV_NOPTS_VALUE)))"
proof -
  let ?fs = "files s" and ?n = "length segs"
  obtain fs' i' time' where bl: "backfill_loop ?fs 0 0 = (fs', i', time')"
    by (metis prod_cases3)
  have len: "length ?fs = ?n" by (simp add: assms(1))
  have nth: "?fs ! j = new_file (segs ! j)" if "j < ?n" for j
    using that by (simp add: assms(1))
  have pre: "\<forall>j. 0 \<le> j \<and> j < length ?fs \<longrightarrow> start_time (?fs ! j) = AV_NOPTS_VALUE"
    by (simp add: assms(1) new_file_def)
  from backfill_loop_spec [OF pre _ bl] len have sp:
    "length fs' = ?n" "i' \<le> ?n"
    "\<forall>j<?n. duration (fs' ! j) = duration (?fs ! j) \<and> url (fs' ! j) = url (?fs ! j)"
    "\<forall>j. j < ?n \<and> j \<le> i' \<longrightarrow> start_time (fs' ! j) = (\<Sum>k = 0..<j. duration (?fs ! k))"
    "\<forall>j. i' < j \<and> j < ?n \<longrightarrow> start_time (fs' ! j) = AV_NOPTS_VALUE"
    "\<forall>j. j < i' \<longrightarrow> duration (?fs ! j) \<noteq> AV_NOPTS_VALUE"
    "i' < ?n \<longrightarrow> duration (?fs ! i') = AV_NOPTS_VALUE"
    "i' = ?n \<longrightarrow> time' = (\<Sum>k = 0..<?n. duration (?fs ! k))"
    by simp_all
  have dur: "duration (?fs ! j) = snd (segs ! j)" "url (?fs ! j) = fst (segs ! j)" if "j < ?n" for j
    using that by (simp_all add: nth new_file_def)
  have sums: "(\<Sum>k = 0..<j. duration (?fs ! k)) = (\<Sum>k<j. snd (segs ! k))" if "j \<le> ?n" for j
    using that by (intro sum.cong) (auto simp: dur lessThan_atLeast0)
  have hb: "header_backfill s =
     (if i' = ?n then s\<lparr>files := fs', avf_duration := time', seekable := 1\<rparr> else s\<lparr>files := fs'\<rparr>)"
    by (simp add: header_backfill_def bl sp(1))
  have fl: "files (header_backfill s) = fs'" by (simp add: hb)
  have st: "start_time (fs' ! j) = (\<Sum>k<j. snd (segs ! k))" if "j < ?n" "j \<le> i'" for j
    using that sp(4) sums [of j] by simp
  have succ: "start_time (fs' ! (j + 1)) = start_time (fs' ! j) + duration (fs' ! j)"
    if "j + 1 < ?n" "j + 1 \<le> i'" for j
  proof -
    from that have "start_time (fs' ! (j + 1)) = (\<Sum>k<j + 1. snd (segs ! k))" by (intro st) simp_all
    moreover from that have "start_time (fs' ! j) = (\<Sum>k<j. snd (segs ! k))" by (intro st) simp_all
    moreover from that sp(3) have "duration (fs' ! j) = snd (segs ! j)" by (simp add: dur)
    ultimately show ?thesis by simp
  qed
  have basic: "length (files (header_backfill s)) = ?n \<and>
     (\<forall>i<?n. url (files (header_backfill s) ! i) = fst (segs ! i) \<and>
                        duration (files (header_backfill s) ! i) = snd (segs ! i))"
    using sp(1,3) by (simp add: fl dur)
  show ?thesis
  proof (cases "\<forall>seg\<in>set segs. snd seg \<noteq> AV_NOPTS_VALUE")
    case True
    have "i' = ?n"
    proof (rule ccontr)
      assume "i' \<noteq> ?n"
      with sp(2,7) have "i' < ?n" "duration (?fs ! i') = AV_NOPTS_VALUE" by simp_all
      with True show False by (simp add: dur)
    qed
    with hb have hb': "header_backfill s = s\<lparr>files := fs', avf_duration := time', seekable := 1\<rparr>"
      by simp
    have total: "time' = sum_list (map snd segs)"
    proof -
      from \<open>i' = ?n\<close> sp(8) sums [of ?n] have "time' = (\<Sum>k<?n. snd (segs ! k))" by simp
      also have "\<dots> = sum_list (map snd segs)"
        by (simp add: sum_list_sum_nth lessThan_atLeast0)
      finally show ?thesis .
    qed
    have ints: "(\<forall>i<?n. sint (start_time (fs' ! i)) = (\<Sum>k<i. sint (snd (segs ! k)))) \<and>
              sint time' = (\<Sum>seg\<leftarrow>segs. sint (snd seg))"
      if r: "\<forall>i\<le>?n. - (2 ^ 63) \<le> (\<Sum>k<i. sint (snd (segs ! k))) \<and>
                                 (\<Sum>k<i. sint (snd (segs ! k))) < 2 ^ 63"
    proof -
      have "sint (start_time (fs' ! i)) = (\<Sum>k<i. sint (snd (segs ! k)))" if "i < ?n" for i
      proof -
        from that r have "\<forall>j\<le>i. - (2 ^ 63) \<le> (\<Sum>k<j. sint (snd (segs ! k))) \<and>
                                 (\<Sum>k<j. sint (snd (segs ! k))) < 2 ^ 63" by simp
        from sint_sum_in_range [OF this] st [of i] that \<open>i' = ?n\<close> show ?thesis by simp
      qed
      moreover have "sint time' = (\<Sum>seg\<leftarrow>segs. sint (snd seg))"
      proof -
        from \<open>i' = ?n\<close> sp(8) sums [of ?n] have "time' = (\<Sum>k<?n. snd (segs ! k))" by simp
        with sint_sum_in_range [OF r] have "sint time' = (\<Sum>k<?n. sint (snd (segs ! k)))" by simp
        also have "\<dots> = (\<Sum>seg\<leftarrow>segs. sint (snd seg))"
          by (simp add: sum_list_sum_nth lessThan_atLeast0)
        finally show ?thesis .
      qed
      ultimately show ?thesis by simp
    qed
    from True basic st succ total ints \<open>i' = ?n\<close> show ?thesis
      by (simp add: hb' ) 
  next
    case False
    have "i' < ?n"
    proof (rule ccontr)
      assume "\<not> i' < ?n"
      with sp(2) have "i' = ?n" by simp
      with sp(6) have "\<forall>j<?n. snd (segs ! j) \<noteq> AV_NOPTS_VALUE" by (simp add: dur)
      with False show False by (fastforce simp: in_set_conv_nth)
    qed
    with hb have hb': "header_backfill s = s\<lparr>files := fs'\<rparr>" by simp
    have "snd (segs ! i') = AV_NOPTS_VALUE \<and>
              (\<forall>j<i'. snd (segs ! j) \<noteq> AV_NOPTS_VALUE) \<and>
              (\<forall>i\<le>i'. start_time (fs' ! i) = (\<Sum>k<i. snd (segs ! k))) \<and>
              (\<forall>i<i'. start_time (fs' ! (i + 1)) = start_time (fs' ! i) + duration (fs' ! i)) \<and>
              (\<forall>i. i' < i \<and> i < ?n \<longrightarrow> start_time (fs' ! i) = AV_NOPTS_VALUE)"
      using \<open>i' < ?n\<close> sp(5,6,7) st succ by (auto simp: dur)
    with \<open>i' < ?n\<close> False basic assms(2) show ?thesis
      by (auto simp: hb')
  qed
qed

theorem header_backfill_start_times_witness:
  "files (parsed_state example_segments) = map new_file example_segments \<and>
   seekable (parsed_state example_segments) = 0 \<and>
   seekable (header_backfill (parsed_state example_segments)) = 1 \<and>
   files (header_backfill (parsed_state example_segments)) = example_table \<and>
   avf_duration (header_backfill (parsed_state example_segments)) = 22000000 \<and>
   files (parsed_state open_ended_segments) = map new_file open_ended_segments \<and>
   seekable (header_backfill (parsed_state open_ended_segments)) = 0 \<and>
   map start_time (files (header_backfill (parsed_state open_ended_segments))) =
     [0, 10000000, 15000000]"
proof -
  have a: "files (parsed_state example_segments) = map new_file example_segments"
    by (simp add: parsed_state_def)
  have b: "seekable (parsed_state example_segments) = 0"
    by (simp add: parsed_state_def)
  have c: "\<forall>seg\<in>set example_segments. snd seg \<noteq> AV_NOPTS_VALUE"
    by (simp add: example_segments_def AV_NOPTS_VALUE_def)
  from header_backfill_start_times [OF a b] c
  have 1: "seekable (header_backfill (parsed_state example_segments)) = 1 \<and>
           avf_duration (header_backfill (parsed_state example_segments)) =
             sum_list (map snd example_segments)"
    by simp
  have 2: "sum_list (map snd example_segments) = 22000000"
    by (simp add: example_segments_def)
  have 3: "files (header_backfill (parsed_state example_segments)) = example_table"
    by code_simp
  have a': "files (parsed_state open_ended_segments) = map new_file open_ended_segments"
    by (simp add: parsed_state_def)
  have b': "seekable (parsed_state open_ended_segments) = 0"
    by (simp add: parsed_state_def)
  have c': "\<not> (\<forall>seg\<in>set open_ended_segments. snd seg \<noteq> AV_NOPTS_VALUE)"
    by (simp add: open_ended_segments_def)
  from header_backfill_start_times [OF a' b'] c'
  have 4: "seekable (header_backfill (parsed_state open_ended_segments)) = 0"
    by simp
  have 5: "map start_time (files (header_backfill (parsed_state open_ended_segments))) =
     [0, 10000000, 15000000]"
    by code_simp
  from a b 1 2 3 a' 4 5 show ?thesis by simp
qed

text \<open>
  C5. On a non-empty table whose start times are non-decreasing (as signed 64-bit
  values), the binary search of \<open>real_seek\<close> returns an index of the table; when some
  segment starts at or before the target, it is the greatest index whose start time is
  at or before the target; when the target precedes every start time, it is index 0.
  The search terminates on every input: \<open>bsearch\<close> is a total function.
\<close>

theorem locate_greatest_start_le:
  assumes "fs \<noteq> []" and "starts_sorted fs"
  shows "locate fs ts < length fs \<and>
         (if \<exists>i<length fs. start_time (fs ! i) \<le>s ts
          then start_time (fs ! locate fs ts) \<le>s ts \<and>
               (\<forall>j<length fs. start_time (fs ! j) \<le>s ts \<longrightarrow> j \<le> locate fs ts)
          else locate fs ts = 0)"
  using assms by (rule locate_spec)

theorem locate_greatest_start_le_witness:
  "example_table \<noteq> [] \<and> starts_sorted example_table \<and>
   locate example_table 12000000 = 1 \<and> locate example_table 12000000 < length example_table \<and>
   start_time (example_table ! locate example_table 12000000) \<le>s 12000000"
proof -
  have ne: "example_table \<noteq> []" by (simp add: example_table_def)
  have so: "starts_sorted example_table"
    by (simp add: example_table_def starts_sorted_def word_sle_eq)
  have ex: "\<exists>i<length example_table. start_time (example_table ! i) \<le>s 12000000"
    by (rule exI [of _ 0]) (simp add: example_table_def word_sle_eq)
  from locate_greatest_start_le [OF ne so, of 12000000] ex
  have "locate example_table 12000000 < length example_table \<and>
        start_time (example_table ! locate example_table 12000000) \<le>s 12000000" by simp
  with ne so locate_example show ?thesis by simp
qed

text \<open>
  C6. When \<open>concat_read_packet\<close> returns a packet (a code that is not negative, from
  a state whose sticky error is not positive), the last call to the library is the
  \<open>av_read_frame\<close> that returned it on the reader that is now \<open>cat->avf\<close>. With
  \<open>delta\<close> the start time of the active segment minus the start time of the reader,
  rescaled from \<open>AV_TIME_BASE_Q\<close> to the time base of the stream of the packet in the
  reader, \<open>pts\<close> and \<open>dts\<close> of the result are those of the reader's packet plus
  \<open>delta\<close> (as 64-bit values), except that a timestamp equal to \<open>AV_NOPTS_VALUE\<close> is
  returned as it is. The stream index and the payload are the reader's.
\<close>

theorem read_packet_timestamps:
  assumes "concat_read_packet env pkt s = Some (ret, pkt', s')"
      and "error s \<le> 0" and "\<not> ret < 0"
  shows "\<exists>rd raw cur h p.
           hist s' = ReadFrame rd ret raw # h \<and> av_read_frame env h rd p = (ret, raw) \<and>
           cat_avf s' = Some rd \<and> cur_file s' = Some cur \<and> cur < length (files s') \<and>
           (let delta = av_rescale_q env
                          (start_time (files s' ! cur) - reader_start_time env (hist s') rd)
                          AV_TIME_BASE_Q
                          (reader_time_base env (hist s') rd (stream_index raw))
            in pts pkt' = (if pts raw = AV_NOPTS_VALUE then AV_NOPTS_VALUE else pts raw + delta) \<and>
               dts pkt' = (if dts raw = AV_NOPTS_VALUE then AV_NOPTS_VALUE else dts raw + delta) \<and>
               stream_index pkt' = stream_index raw \<and> payload pkt' = payload raw)"
proof -
  have e: "error s = 0"
  proof (rule ccontr)
    assume "error s \<noteq> 0"
    with assms(1) have "ret = error s" by (auto simp: concat_read_packet_def)
    with assms(2,3) \<open>error s \<noteq> 0\<close> show False by simp
  qed
  from assms(1) e show ?thesis
  proof (cases rule: concat_read_packet_cases)
    case failed_read
    with assms(3) show ?thesis by simp
  next
    case exhausted
    from read_loop_total_exit [OF exhausted] have "ret = AVERROR_EOF" .
    with assms(3) show ?thesis by simp
  next
    case (packet pkt1 cur rd)
    from read_loop_break [OF packet(1)] packet(4) obtain h p where
      h: "hist s' = ReadFrame rd ret pkt1 # h" "av_read_frame env h rd p = (ret, pkt1)" by auto
    with packet show ?thesis by (auto simp: Let_def)
  qed
qed

theorem read_packet_timestamps_witness:
  "error second_segment_state \<le> 0 \<and>
   (\<exists>pkt' s' raw h.
      concat_read_packet reading_env example_packet second_segment_state = Some (0, pkt', s') \<and>
      hist s' = ReadFrame 4 0 raw # h \<and> pts raw = 40 \<and> dts raw = AV_NOPTS_VALUE \<and>
      pts pkt' = 40 + 10000 \<and> dts pkt' = AV_NOPTS_VALUE)"
proof -
  have e: "error second_segment_state \<le> 0" by code_simp
  have z: "\<not> (0::int) < 0" by simp
  from read_packet_timestamps [OF reading_example e z] reading_example e
  show ?thesis by (auto simp: example_packet_def)
qed



text \<open>
  C8. A seek on a table that is not seekable, or with the byte flag or the frame flag,
  returns \<open>AVERROR(ESPIPE)\<close> in the first case and \<open>AVERROR(ENOSYS)\<close> otherwise (the
  design's \<open>NotSupported\<close>), and makes no call to the library: the history, the table,
  the active segment and the reader are what they were.
\<close>

theorem concat_seek_not_supported:
  assumes "seekable s = 0 \<or> flags AND AVSEEK_FLAG_BYTE \<noteq> 0 \<or> flags AND AVSEEK_FLAG_FRAME \<noteq> 0"
  shows "\<exists>ret s'. concat_seek env stream min_ts ts max_ts flags s = Some (ret, s') \<and>
           ret = (if seekable s = 0 then AVERROR ESPIPE else AVERROR ENOSYS) \<and>
           NotSupported ret \<and> ret < 0 \<and>
           hist s' = hist s \<and> cur_file s' = cur_file s \<and> cat_avf s' = cat_avf s \<and>
           files s' = files s"
proof (cases "seekable s = 0")
  case True
  then show ?thesis
    by (simp add: concat_seek_def NotSupported_def AVERROR_def ESPIPE_def)
next
  case False
  with assms have "flags AND (AVSEEK_FLAG_BYTE OR AVSEEK_FLAG_FRAME) \<noteq> 0"
    by (simp add: seek_flags_test)
  with False show ?thesis
    by (simp add: concat_seek_def NotSupported_def AVERROR_def ENOSYS_def)
qed

theorem concat_seek_not_supported_witness:
  "AVSEEK_FLAG_FRAME AND AVSEEK_FLAG_FRAME \<noteq> 0 \<and>
   (\<exists>s'. concat_seek (example_env 0) (- 1) 0 12000000 INT64_MAX AVSEEK_FLAG_FRAME example_state =
           Some (AVERROR ENOSYS, s') \<and>
         NotSupported (AVERROR ENOSYS) \<and> hist s' = hist example_state \<and>
         cur_file s' = cur_file example_state \<and> cat_avf s' = cat_avf example_state)"
proof -
  have f: "AVSEEK_FLAG_FRAME AND AVSEEK_FLAG_FRAME \<noteq> 0"
    by (simp add: AVSEEK_FLAG_FRAME_def)
  then have h: "seekable example_state = 0 \<or> AVSEEK_FLAG_FRAME AND AVSEEK_FLAG_BYTE \<noteq> 0 \<or>
                AVSEEK_FLAG_FRAME AND AVSEEK_FLAG_FRAME \<noteq> 0" by simp
  have "seekable example_state \<noteq> 0" by (simp add: example_state_def)
  with concat_seek_not_supported [OF h, of "example_env 0" "- 1" 0 12000000 INT64_MAX] f
  show ?thesis by auto
qed

text \<open>
  C9. On a seekable table whose start times are strictly increasing, a seek whose
  target, in \<open>AV_TIME_BASE_Q\<close>, is the start time of segment \<open>k\<close> locates \<open>k\<close>. The
  seek calls \<open>open_file\<close> for \<open>k\<close> first and for no index other than \<open>k\<close> and
  \<open>k + 1\<close>. When it succeeds, the active segment is \<open>k\<close>, or it is \<open>k + 1\<close>; the
  latter only when \<open>k\<close> is not the last segment, the start time of \<open>k + 1\<close> is below
  the upper bound of the window, and the seek in the reader of \<open>k\<close> has failed. It is
  never \<open>k - 1\<close>.
\<close>

theorem seek_to_segment_start:
  assumes "starts_increasing (files s)" and "k < length (files s)" and "seekable s \<noteq> 0"
      and "seek_window env s stream (min_ts, ts, max_ts) = (mn, start_time (files s ! k), mx)"
      and "concat_seek env stream min_ts ts max_ts flags s = Some (ret, s')"
  shows "locate (files s) (start_time (files s ! k)) = k \<and>
     (\<exists>new. attempts (hist s') = new @ attempts (hist s) \<and>
        fst ` set new \<subseteq> {k, k + 1} \<and> (new \<noteq> [] \<longrightarrow> fst (last new) = k)) \<and>
     (\<not> ret < 0 \<longrightarrow>
        cur_file s' = Some k \<or>
        cur_file s' = Some (k + 1) \<and> k + 1 < length (files s) \<and>
        start_time (files s ! (k + 1)) <s mx \<and>
        (\<exists>s1 r2 s2. open_file env k (s\<lparr>error := 0, cat_avf := None\<rparr>) = Some (0, s1) \<and>
           try_seek env stream mn (start_time (files s ! k)) mx flags s1 = Some (r2, s2) \<and>
           r2 < 0))"
proof -
  let ?t = "start_time (files s ! k)"
  let ?s0 = "s\<lparr>error := 0, cat_avf := None\<rparr>"
  have loc: "locate (files s) ?t = k" using assms(1,2) by (rule locate_start)
  show ?thesis
  proof (cases "flags AND (AVSEEK_FLAG_BYTE OR AVSEEK_FLAG_FRAME) \<noteq> 0")
    case True
    with assms(3,5) have "ret = AVERROR ENOSYS" "s' = s\<lparr>error := 0\<rparr>"
      by (auto simp: concat_seek_def)
    then have "attempts (hist s') = [] @ attempts (hist s)" "ret < 0"
      by (simp_all add: AVERROR_def ENOSYS_def)
    with loc show ?thesis by fastforce
  next
    case False
    with assms(3,5) obtain s1 where
      rs: "real_seek env stream min_ts ts max_ts flags ?s0 = Some (ret, s1)"
      and s': "s' = (if ret < 0
                    then (avformat_close_input (cat_avf s1) s1)\<lparr>cat_avf := cat_avf s, cur_file := cur_file s\<rparr>
                    else avformat_close_input (cat_avf s) s1)"
      by (cases "real_seek env stream min_ts ts max_ts flags ?s0")
         (auto simp: concat_seek_def Let_def split: if_splits)
    have w: "seek_window env ?s0 stream (min_ts, ts, max_ts) = (mn, ?t, mx)"
      using assms(4) by (auto simp: seek_window_def split: if_splits)
    have at: "attempts (hist s') = attempts (hist s1)"
      by (simp add: s')
    have cf: "\<not> ret < 0 \<Longrightarrow> cur_file s' = cur_file s1"
      by (simp add: s' avformat_close_input_state)
    from real_seek_lands [OF rs w] loc at cf show ?thesis by auto
  qed
qed

theorem seek_to_segment_start_witness:
  "starts_increasing (files example_state) \<and> 1 < length (files example_state) \<and>
   seekable example_state \<noteq> 0 \<and>
   seek_window edge_env example_state (- 1) (0, 10000000, INT64_MAX) =
     (0, start_time (files example_state ! 1), INT64_MAX) \<and>
   (\<exists>s'. concat_seek edge_env (- 1) 0 10000000 INT64_MAX 0 example_state = Some (0, s') \<and>
         cur_file s' = Some (1 + 1) \<and>
         attempts (hist s') = [(2, 0), (1, 0)] @ attempts (hist example_state)) \<and>
   locate (files example_state) (start_time (files example_state ! 1)) = 1 \<and>
   start_time (files example_state ! (1 + 1)) <s INT64_MAX"
proof -
  have a: "starts_increasing (files example_state)" by code_simp
  have b: "1 < length (files example_state)" by code_simp
  have c: "seekable example_state \<noteq> 0" by code_simp
  have d: "seek_window edge_env example_state (- 1) (0, 10000000, INT64_MAX) =
     (0, start_time (files example_state ! 1), INT64_MAX)" by code_simp
  have e: "cur_file (example_state\<lparr>cur_file := Some 2, cat_avf := Some 9,
       hist := [CloseInput 0,
                SeekFile 9 (- 1) (- 15000000) (- 5000000) INT64_MAX 0 0,
                OpenFile 2 0, CloseInput 4, FindStreamInfo 9 0, OpenInput 9 ''c'' 0,
                AllocContext (Some 9),
                SeekFile 4 (- 1) (- 10000000) 0 INT64_MAX 0 (- 1),
                OpenFile 1 0, FindStreamInfo 4 0, OpenInput 4 ''b'' 0,
                AllocContext (Some 4)] @ hist example_state\<rparr>) = Some (1 + 1)" by simp
  have f: "\<not> (0::int) < 0" by simp
  from seek_to_segment_start [OF a b c d edge_seek_example] e f
  have "locate (files example_state) (start_time (files example_state ! 1)) = 1 \<and>
        start_time (files example_state ! (1 + 1)) <s INT64_MAX"
    by auto
  with a b c d edge_seek_example show ?thesis by simp
qed




end
